theory Spec2Isabelle
  imports Complex_Main "HOL-Library.Log_Nat"
begin

section \<open>Snake Lite: the game state of \<open>src/main.py\<close>\<close>

text \<open>
  The program is one class, \<open>SnakeGame\<close>, whose attributes are mutated by the callbacks
  \<open>setup\<close>, \<open>on_update\<close>, \<open>step_snake\<close>, \<open>on_key_press\<close> and their helpers. The
  embedding passes the object explicitly as a record and returns the updated record.
  Three things the Python does besides computing are written out:
  \<^item> floating point: a Python \<open>float\<close> is an IEEE 754 binary64 number; a finite one is
    modelled by the rational it denotes, and every literal and operation rounds
    (\<open>fl\<close>, round to nearest, ties to even, 53 significant bits);
  \<^item> randomness: the state of the \<open>random\<close> module is an oracle \<open>nat \<Rightarrow> nat\<close> of raw
    draws, passed in and returned; \<open>randrange\<close> consumes one draw;
  \<^item> failure: a raised exception is \<open>Inl\<close> of a sum, and a call that never returns
    (the retry loop of \<open>random_grid_position\<close>) is \<open>None\<close>.
\<close>

subsection \<open>Binary64 values\<close>

type_synonym float = rat

text \<open>Round to the nearest integer, ties to the even one.\<close>

definition rne :: "rat \<Rightarrow> int" where
  "rne x = (let f = \<lfloor>x\<rfloor>; d = x - of_int f in
            if d < 1 / 2 then f else if 1 / 2 < d then f + 1
            else if even f then f else f + 1)"

text \<open>The binary exponent of a positive rational: \<open>2 powi expo x \<le> x < 2 powi (expo x + 1)\<close>.\<close>

definition expo :: "rat \<Rightarrow> int" where
  "expo x = (let (a, b) = quotient_of x; e = bitlen a - bitlen b in
             if 2 powi e \<le> x then e else e - 1)"

text \<open>
  Rounding of a positive rational to 53 significant bits, and of any rational by symmetry.
  The exponent range of binary64 (overflow above \<open>2 powi 1024\<close>, subnormals below
  \<open>2 powi (- 1022)\<close>) is not modelled: the game's values stay far inside it.
\<close>

definition fl_pos :: "rat \<Rightarrow> float" where
  "fl_pos x = (let u = 2 powi (expo x - 52) in of_int (rne (x / u)) * u)"

definition fl :: "rat \<Rightarrow> float" where
  "fl x = (if x = 0 then 0 else if 0 < x then fl_pos x else - fl_pos (- x))"

subsection \<open>Configuration constants\<close>

definition SCREEN_WIDTH :: int where "SCREEN_WIDTH = 800"
definition SCREEN_HEIGHT :: int where "SCREEN_HEIGHT = 600"
definition CELL_SIZE :: int where "CELL_SIZE = 20"
definition UI_HEIGHT :: int where "UI_HEIGHT = 50"
definition GRID_COLS :: int where "GRID_COLS = SCREEN_WIDTH div CELL_SIZE"
definition GRID_ROWS :: int where "GRID_ROWS = (SCREEN_HEIGHT - UI_HEIGHT) div CELL_SIZE"

text \<open>The literals \<open>0.20\<close>, \<open>0.06\<close> and \<open>0.02\<close> denote the doubles nearest to them.\<close>

definition MOVE_INTERVAL_START :: float where "MOVE_INTERVAL_START = fl (20 / 100)"
definition MOVE_INTERVAL_MIN :: float where "MOVE_INTERVAL_MIN = fl (6 / 100)"
definition LEVEL_STEP :: float where "LEVEL_STEP = fl (2 / 100)"

text \<open>
  The key symbols of \<open>arcade.key\<close> (the library re-exports pyglet's table): \<open>R\<close> is
  \<open>0x72\<close>, the arrows are \<open>0xff51\<close> to \<open>0xff54\<close>.
\<close>

definition key_R :: int where "key_R = 114"
definition key_LEFT :: int where "key_LEFT = 65361"
definition key_UP :: int where "key_UP = 65362"
definition key_RIGHT :: int where "key_RIGHT = 65363"
definition key_DOWN :: int where "key_DOWN = 65364"

subsection \<open>Errors and the random source\<close>

datatype py_error = IndexError | ValueError

type_synonym rng = "nat \<Rightarrow> nat"

text \<open>
  \<open>random.randrange(start, stop)\<close>: an integer of \<open>[start, stop)\<close>, chosen by the next raw
  draw; \<open>ValueError\<close> on an empty range.
\<close>

definition randrange :: "int \<Rightarrow> int \<Rightarrow> rng \<Rightarrow> py_error + int \<times> rng" where
  "randrange start stop r =
     (if stop \<le> start then Inl ValueError
      else Inr (start + int (r 0 mod nat (stop - start)), \<lambda>i. r (Suc i)))"

subsection \<open>Module-level functions\<close>

definition clamp :: "float \<Rightarrow> float \<Rightarrow> float \<Rightarrow> float" where
  "clamp value min_value max_value = max min_value (min value max_value)"

text \<open>
  The test of line 57 of the source: \<open>pos not in excluded and screen_y < ui_boundary\<close>, with
  \<open>screen_y = pos[1] * CELL_SIZE + CELL_SIZE / 2\<close> (an integer plus a float) and
  \<open>ui_boundary = SCREEN_HEIGHT - UI_HEIGHT\<close> (an integer).
\<close>

definition accepts :: "(int \<times> int) set \<Rightarrow> int \<times> int \<Rightarrow> bool" where
  "accepts excluded pos =
     (let screen_y = fl (fl (of_int (snd pos * CELL_SIZE)) + fl (of_int CELL_SIZE / 2));
          ui_boundary = SCREEN_HEIGHT - UI_HEIGHT
      in pos \<notin> excluded \<and> screen_y < of_int ui_boundary)"

text \<open>The retry loop \<open>while True\<close>: \<open>None\<close> when it never returns.\<close>

partial_function (option) random_grid_position ::
  "rng \<Rightarrow> (int \<times> int) set \<Rightarrow> (py_error + (int \<times> int) \<times> rng) option" where
  "random_grid_position r excluded =
     (case randrange 0 GRID_COLS r of
        Inl e \<Rightarrow> Some (Inl e)
      | Inr (col, r1) \<Rightarrow>
          (case randrange 0 GRID_ROWS r1 of
             Inl e \<Rightarrow> Some (Inl e)
           | Inr (row, r2) \<Rightarrow>
               (let pos = (col, row) in
                if accepts excluded pos then Some (Inr (pos, r2))
                else random_grid_position r2 excluded)))"

subsection \<open>The class \<open>SnakeGame\<close>\<close>

record game =
  score :: int
  level :: int
  game_over :: bool
  snake :: "(int \<times> int) list"
  direction :: "int \<times> int"
  next_direction :: "int \<times> int"
  food :: "int \<times> int"
  move_interval :: float
  time_since_move :: float

text \<open>The constructor \<open>__init__\<close>.\<close>

definition SnakeGame_init :: game where
  "SnakeGame_init =
     \<lparr>score = 0, level = 1, game_over = False, snake = [], direction = (1, 0),
      next_direction = (1, 0), food = (0, 0), move_interval = MOVE_INTERVAL_START,
      time_since_move = 0\<rparr>"

definition spawn_food :: "game \<Rightarrow> rng \<Rightarrow> (py_error + game \<times> rng) option" where
  "spawn_food g r =
     (let excluded = set (snake g) in
      case random_grid_position r excluded of
        None \<Rightarrow> None
      | Some (Inl e) \<Rightarrow> Some (Inl e)
      | Some (Inr (pos, r')) \<Rightarrow> Some (Inr (g\<lparr>food := pos\<rparr>, r')))"

text \<open>The method \<open>setup\<close> (named \<open>setup_game\<close> here).\<close>

definition setup_game :: "game \<Rightarrow> rng \<Rightarrow> (py_error + game \<times> rng) option" where
  "setup_game g r =
     (let g1 = g\<lparr>score := 0, level := 1, game_over := False\<rparr> in
      case randrange 2 (GRID_COLS - 2) r of
        Inl e \<Rightarrow> Some (Inl e)
      | Inr (start_col, r1) \<Rightarrow>
          (case randrange 1 (GRID_ROWS - 1) r1 of
             Inl e \<Rightarrow> Some (Inl e)
           | Inr (start_row, r2) \<Rightarrow>
               (let g2 = g1\<lparr>snake := [(start_col, start_row), (start_col - 1, start_row),
                                       (start_col - 2, start_row)],
                             direction := (1, 0), next_direction := (1, 0)\<rparr> in
                case spawn_food g2 r2 of
                  None \<Rightarrow> None
                | Some (Inl e) \<Rightarrow> Some (Inl e)
                | Some (Inr (g3, r3)) \<Rightarrow>
                    Some (Inr (g3\<lparr>move_interval := MOVE_INTERVAL_START,
                                   time_since_move := 0\<rparr>, r3)))))"

definition update_level_and_speed :: "game \<Rightarrow> game" where
  "update_level_and_speed g =
     (let new_level = 1 + score g div 5;
          g1 = (if new_level \<noteq> level g then g\<lparr>level := new_level\<rparr> else g);
          target_interval =
            fl (MOVE_INTERVAL_START - fl (fl (of_int (level g1 - 1)) * LEVEL_STEP))
      in g1\<lparr>move_interval := clamp target_interval MOVE_INTERVAL_MIN MOVE_INTERVAL_START\<rparr>)"

text \<open>
  \<open>step_snake\<close>. Reading \<open>self.snake[0]\<close> of an empty list raises \<open>IndexError\<close>;
  \<open>self.snake.pop()\<close> runs right after an insertion, so the list it shortens is not empty.
\<close>

definition step_snake :: "game \<Rightarrow> rng \<Rightarrow> (py_error + game \<times> rng) option" where
  "step_snake g r =
     (let g1 = g\<lparr>direction := next_direction g\<rparr> in
      case snake g1 of
        [] \<Rightarrow> Some (Inl IndexError)
      | (head_col, head_row) # _ \<Rightarrow>
          (let (dx, dy) = direction g1;
               new_head = (head_col + dx, head_row + dy) in
           if \<not> (0 \<le> fst new_head \<and> fst new_head < GRID_COLS \<and>
                  0 \<le> snd new_head \<and> snd new_head < GRID_ROWS)
           then Some (Inr (g1\<lparr>game_over := True\<rparr>, r))
           else if new_head \<in> set (snake g1)
           then Some (Inr (g1\<lparr>game_over := True\<rparr>, r))
           else
             (let g2 = g1\<lparr>snake := new_head # snake g1\<rparr> in
              if new_head = food g2
              then (case spawn_food (g2\<lparr>score := score g2 + 1\<rparr>) r of
                      None \<Rightarrow> None
                    | Some (Inl e) \<Rightarrow> Some (Inl e)
                    | Some (Inr (g3, r')) \<Rightarrow> Some (Inr (update_level_and_speed g3, r')))
              else Some (Inr (g2\<lparr>snake := butlast (snake g2)\<rparr>, r)))))"

definition on_update :: "float \<Rightarrow> game \<Rightarrow> rng \<Rightarrow> (py_error + game \<times> rng) option" where
  "on_update delta_time g r =
     (if game_over g then Some (Inr (g, r))
      else
        (let g1 = g\<lparr>time_since_move := fl (time_since_move g + delta_time)\<rparr> in
         if move_interval g1 \<le> time_since_move g1
         then step_snake (g1\<lparr>time_since_move := 0\<rparr>) r
         else Some (Inr (g1, r))))"

definition try_set_direction :: "int \<Rightarrow> int \<Rightarrow> game \<Rightarrow> game" where
  "try_set_direction dx dy g =
     (let (current_dx, current_dy) = direction g in
      if (dx, dy) = (- current_dx, - current_dy) then g
      else g\<lparr>next_direction := (dx, dy)\<rparr>)"

definition on_key_press ::
  "int \<Rightarrow> int \<Rightarrow> game \<Rightarrow> rng \<Rightarrow> (py_error + game \<times> rng) option" where
  "on_key_press key modifiers g r =
     (if key = key_R then setup_game g r
      else if game_over g then Some (Inr (g, r))
      else if key = key_UP then Some (Inr (try_set_direction 0 1 g, r))
      else if key = key_DOWN then Some (Inr (try_set_direction 0 (- 1) g, r))
      else if key = key_LEFT then Some (Inr (try_set_direction (- 1) 0 g, r))
      else if key = key_RIGHT then Some (Inr (try_set_direction 1 0 g, r))
      else Some (Inr (g, r)))"

subsection \<open>Reachable states\<close>

text \<open>
  \<open>main\<close> constructs the window, calls \<open>setup\<close> and hands control to the event loop, which
  calls \<open>on_update\<close> with the elapsed time of each frame and \<open>on_key_press\<close> with each key
  (\<open>on_draw\<close> reads the state only). A state is reachable when these calls, all of which
  returned normally, lead to it.
\<close>

inductive reachable :: "game \<times> rng \<Rightarrow> bool" where
  start: "setup_game SnakeGame_init r = Some (Inr c) \<Longrightarrow> reachable c"
| frame: "reachable (g, r) \<Longrightarrow> on_update delta_time g r = Some (Inr c) \<Longrightarrow> reachable c"
| press: "reachable (g, r) \<Longrightarrow> on_key_press key modifiers g r = Some (Inr c) \<Longrightarrow> reachable c"

text \<open>
  One running episode: frames and key presses other than the restart key \<open>R\<close>.
\<close>

inductive episode :: "game \<times> rng \<Rightarrow> game \<times> rng \<Rightarrow> bool" where
  same: "episode c c"
| frame: "episode c (g, r) \<Longrightarrow> on_update delta_time g r = Some (Inr c') \<Longrightarrow> episode c c'"
| press: "episode c (g, r) \<Longrightarrow> key \<noteq> key_R \<Longrightarrow>
          on_key_press key modifiers g r = Some (Inr c') \<Longrightarrow> episode c c'"

subsection \<open>Notions used by the statements\<close>

text \<open>A cell of the playing field.\<close>

definition in_grid :: "int \<times> int \<Rightarrow> bool" where
  "in_grid p = (0 \<le> fst p \<and> fst p < GRID_COLS \<and> 0 \<le> snd p \<and> snd p < GRID_ROWS)"

text \<open>
  The cell \<open>new_head\<close> that \<open>step_snake\<close> computes from the head and the pending direction,
  and the two tests it makes on it: a collision with a wall or with the snake, and eating.
\<close>

definition new_head :: "game \<Rightarrow> int \<times> int" where
  "new_head g = (fst (hd (snake g)) + fst (next_direction g),
                 snd (hd (snake g)) + snd (next_direction g))"

definition collides :: "game \<Rightarrow> bool" where
  "collides g \<longleftrightarrow> \<not> in_grid (new_head g) \<or> new_head g \<in> set (snake g)"

definition eats :: "game \<Rightarrow> bool" where
  "eats g \<longleftrightarrow> in_grid (new_head g) \<and> new_head g \<notin> set (snake g) \<and> new_head g = food g"

text \<open>
  The direction that \<open>try_set_direction\<close> refuses, and the arrow keys with the directions
  that \<open>on_key_press\<close> requests for them.
\<close>

definition opposite :: "int \<times> int \<Rightarrow> int \<times> int" where
  "opposite d = (- fst d, - snd d)"

definition arrow_keys :: "(int \<times> (int \<times> int)) list" where
  "arrow_keys = [(key_UP, (0, 1)), (key_DOWN, (0, - 1)), (key_LEFT, (- 1, 0)), (key_RIGHT, (1, 0))]"

text \<open>
  The cell that the \<open>n\<close>-th pass of the retry loop draws from the random source, and the
  source after \<open>k\<close> draws have been consumed.
\<close>

definition cell_at :: "rng \<Rightarrow> nat \<Rightarrow> int \<times> int" where
  "cell_at r n = (int (r (2 * n) mod nat GRID_COLS), int (r (2 * n + 1) mod nat GRID_ROWS))"

definition drop_draws :: "nat \<Rightarrow> rng \<Rightarrow> rng" where
  "drop_draws k r = (\<lambda>i. r (i + k))"

text \<open>
  A fair random source: every cell of the grid is drawn at some pass of the retry loop.
  A sequence of independent uniform draws, which is what \<open>random.randrange\<close> stands for,
  is fair with probability 1.
\<close>

definition fair :: "rng \<Rightarrow> bool" where
  "fair r \<longleftrightarrow> (\<forall>p. in_grid p \<longrightarrow> (\<exists>n. cell_at r n = p))"

text \<open>
  The interval that \<open>update_level_and_speed\<close> computes at a level, and the invariant of
  the reachable states.
\<close>

definition interval_at :: "int \<Rightarrow> float" where
  "interval_at l =
     clamp (fl (MOVE_INTERVAL_START - fl (fl (of_int (l - 1)) * LEVEL_STEP)))
       MOVE_INTERVAL_MIN MOVE_INTERVAL_START"

definition game_inv :: "game \<Rightarrow> bool" where
  "game_inv g \<longleftrightarrow>
     distinct (snake g) \<and> int (length (snake g)) = 3 + score g \<and> 0 \<le> score g \<and>
     level g = 1 + score g div 5 \<and> food g \<notin> set (snake g) \<and> in_grid (food g) \<and>
     move_interval g = interval_at (level g)"

subsection \<open>Sample runs and states\<close>

text \<open>
  A run in which the source draws the start cell \<open>(2, 1)\<close>, then puts each food right in
  front of the snake, five times, and draws \<open>0\<close> ever after: \<open>demo_game n\<close> is the state
  after \<open>n\<close> foods, \<open>demo_rng k\<close> the source after \<open>k\<close> draws.
\<close>

definition demo_draw :: "nat \<Rightarrow> nat" where
  "demo_draw i = (if i < 2 \<or> 12 \<le> i then 0 else if even i then i div 2 + 2 else 1)"

definition demo_rng :: "nat \<Rightarrow> rng" where
  "demo_rng k = (\<lambda>i. demo_draw (i + k))"

fun demo_snake :: "nat \<Rightarrow> (int \<times> int) list" where
  "demo_snake 0 = [(2, 1), (1, 1), (0, 1)]"
| "demo_snake (Suc n) = (int n + 3, 1) # demo_snake n"

definition demo_game :: "nat \<Rightarrow> game" where
  "demo_game n =
     \<lparr>score = int n, level = 1 + int n div 5, game_over = False, snake = demo_snake n,
      direction = (1, 0), next_direction = (1, 0),
      food = (if n < 5 then (int n + 3, 1) else (0, 0)),
      move_interval = interval_at (1 + int n div 5), time_since_move = 0\<rparr>"

text \<open>
  A run in which the source draws the start cell \<open>(37, 5)\<close> and the food \<open>(0, 0)\<close>:
  \<open>approach n\<close> is the state after \<open>n\<close> moves to the right, \<open>wall_game\<close> the state with
  the head in the last column, and \<open>turn_game\<close> that state after the player has pressed the
  up arrow.
\<close>

definition wall_draw :: "nat \<Rightarrow> nat" where
  "wall_draw i = (if i = 0 then 35 else if i = 1 then 4 else 0)"

definition wall_rng :: "nat \<Rightarrow> rng" where
  "wall_rng k = (\<lambda>i. wall_draw (i + k))"

definition approach :: "nat \<Rightarrow> game" where
  "approach n = SnakeGame_init\<lparr>snake := [(int n + 37, 5), (int n + 36, 5), (int n + 35, 5)]\<rparr>"

definition wall_game :: game where
  "wall_game = SnakeGame_init\<lparr>snake := [(39, 5), (38, 5), (37, 5)]\<rparr>"

definition turn_game :: game where
  "turn_game = wall_game\<lparr>next_direction := (0, 1)\<rparr>"

text \<open>
  A snake of four segments curled in a square, moving down, with a turn to the right
  pending: the cell right of its head is its tail.
\<close>

definition loop_game :: game where
  "loop_game = SnakeGame_init\<lparr>score := 1, snake := [(1, 1), (1, 2), (2, 2), (2, 1)],
     direction := (0, - 1), food := (5, 5)\<rparr>"

text \<open>
  A fair source that sweeps the grid row by row, from the cell \<open>(0, 1)\<close> on: its first
  three cells are those of the snake that \<open>setup\<close> lays at \<open>(2, 1)\<close>.
\<close>

definition sweep_rng :: rng where
  "sweep_rng = (\<lambda>i. if even i then (i div 2) mod 40 else 1 + (i div 2) div 40)"

section \<open>Rounding is monotone\<close>

text \<open>
  The only facts about binary64 arithmetic that the claims need: rounding keeps the order
  of its arguments, and it maps 0 to 0. Concrete values are computed from the definitions.
\<close>

lemma rne_lower: "\<lfloor>x\<rfloor> \<le> rne x"
  by (simp add: rne_def Let_def)

lemma rne_upper: "rne x \<le> \<lfloor>x\<rfloor> + 1"
  by (simp add: rne_def Let_def)

lemma rne_of_int [simp]: "rne (of_int n) = n"
  by (simp add: rne_def Let_def)

lemma rne_mono:
  assumes "x \<le> y"
  shows "rne x \<le> rne y"
proof (cases "\<lfloor>x\<rfloor> = \<lfloor>y\<rfloor>")
  case True
  with assms show ?thesis
    by (auto simp: rne_def Let_def)
next
  case False
  with assms have "\<lfloor>x\<rfloor> + 1 \<le> \<lfloor>y\<rfloor>"
    using floor_mono [of x y] by linarith
  with rne_upper [of x] rne_lower [of y] show ?thesis by linarith
qed

lemma two_powi_pos: "0 < (2::rat) powi e"
  by (simp add: zero_less_power_int)

lemma expo_bounds:
  assumes "0 < x"
  shows "2 powi expo x \<le> x \<and> x < 2 powi (expo x + 1)"
proof -
  obtain a b where q: "quotient_of x = (a, b)" by (cases "quotient_of x")
  then have b: "0 < b" and x: "x = of_int a / of_int b"
    by (simp_all add: quotient_of_denom_pos quotient_of_div)
  from assms x b have a: "0 < a" by (simp add: zero_less_divide_iff)
  define la where "la = bitlen a"
  define lb where "lb = bitlen b"
  from a b have l1: "1 \<le> la" "1 \<le> lb"
    using bitlen_eq_zero_iff [of a] bitlen_eq_zero_iff [of b] bitlen_nonneg [of a] bitlen_nonneg [of b]
    by (auto simp: la_def lb_def) 
  have pw: "(2::rat) powi (k - 1) = of_int (2 ^ nat (k - 1))" "(2::rat) powi k = of_int (2 ^ nat k)"
    if "1 \<le> k" for k
    using that by (simp_all add: power_int_def)
  from bitlen_bounds [OF a] l1 have ab: "2 powi (la - 1) \<le> (of_int a :: rat)" "(of_int a :: rat) < 2 powi la"
    unfolding la_def [symmetric] pw [OF l1(1)] by (simp_all only: of_int_le_iff of_int_less_iff)
  from bitlen_bounds [OF b] l1 have bb: "2 powi (lb - 1) \<le> (of_int b :: rat)" "(of_int b :: rat) < 2 powi lb"
    unfolding lb_def [symmetric] pw [OF l1(2)] by (simp_all only: of_int_le_iff of_int_less_iff)
  have bpos: "0 < (of_int b :: rat)" using b by simp
  have apos: "0 \<le> (of_int a :: rat)" using a by simp
  have "x < 2 powi la / 2 powi (lb - 1)"
    unfolding x by (rule frac_less [OF apos ab(2) two_powi_pos bb(1)])
  moreover have "la - (lb - 1) = la - lb + 1" by simp
  ultimately have up: "x < 2 powi (la - lb + 1)"
    by (simp add: power_int_diff [symmetric])
  have "2 powi (la - 1) / 2 powi lb < x"
    unfolding x by (rule frac_less2 [OF two_powi_pos ab(1) bpos bb(2)])
  moreover have "la - 1 - lb = la - lb - 1" by simp
  ultimately have lo: "2 powi (la - lb - 1) < x"
    by (simp add: power_int_diff [symmetric])
  have e: "expo x = (if 2 powi (la - lb) \<le> x then la - lb else la - lb - 1)"
    by (simp add: expo_def q la_def lb_def Let_def)
  show ?thesis
  proof (cases "2 powi (la - lb) \<le> x")
    case True
    with e up show ?thesis by simp
  next
    case False
    with e lo show ?thesis by simp
  qed
qed

lemma two_powi_less_imp:
  assumes "(2::rat) powi m < 2 powi n"
  shows "m < n"
proof (rule ccontr)
  assume "\<not> m < n"
  then have "(2::rat) powi n \<le> 2 powi m"
    by (intro power_int_increasing) simp_all
  with assms show False by simp
qed

lemma expo_mono:
  assumes "0 < x" and "x \<le> y"
  shows "expo x \<le> expo y"
proof -
  from assms have y: "0 < y" by simp
  from expo_bounds [OF assms(1)] expo_bounds [OF y] assms(2)
  have "(2::rat) powi expo x < 2 powi (expo y + 1)" by linarith
  then have "expo x < expo y + 1"
    by (rule two_powi_less_imp)
  then show ?thesis by simp
qed

lemma fl_pos_bounds:
  assumes "0 < x"
  shows "2 powi expo x \<le> fl_pos x \<and> fl_pos x \<le> 2 powi (expo x + 1)"
proof -
  define u :: rat where "u = 2 powi (expo x - 52)"
  have u: "0 < u" by (simp add: u_def two_powi_pos)
  have p52: "2 powi expo x = 2 ^ 52 * u" "2 powi (expo x + 1) = 2 ^ 53 * u"
    by (simp_all add: u_def power_int_diff power_int_add)
  from expo_bounds [OF assms] have "2 ^ 52 * u \<le> x" "x < 2 ^ 53 * u"
    by (simp_all add: p52)
  with u have "of_int (2 ^ 52) \<le> x / u" "x / u \<le> of_int (2 ^ 53)"
    by (simp_all add: pos_le_divide_eq pos_divide_le_eq)
  then have "rne (of_int (2 ^ 52)) \<le> rne (x / u)" "rne (x / u) \<le> rne (of_int (2 ^ 53))"
    by (auto intro: rne_mono)
  then have "2 ^ 52 \<le> rne (x / u)" "rne (x / u) \<le> 2 ^ 53"
    unfolding rne_of_int by simp_all
  then have "(2 ^ 52 :: rat) \<le> of_int (rne (x / u))" "(of_int (rne (x / u)) :: rat) \<le> 2 ^ 53"
    by (metis of_int_le_iff of_int_numeral of_int_power)+
  with u have "2 ^ 52 * u \<le> of_int (rne (x / u)) * u" "of_int (rne (x / u)) * u \<le> 2 ^ 53 * u"
    by (simp_all only: mult_le_cancel_right_pos)
  then show ?thesis
    unfolding p52 by (simp add: fl_pos_def u_def Let_def)
qed

lemma fl_pos_mono:
  assumes "0 < x" and "x \<le> y"
  shows "fl_pos x \<le> fl_pos y"
proof (cases "expo x = expo y")
  case True
  define u :: rat where "u = 2 powi (expo y - 52)"
  have u: "0 < u" by (simp add: u_def two_powi_pos)
  from assms(2) u have "x / u \<le> y / u" by (simp add: divide_right_mono)
  then have "rne (x / u) \<le> rne (y / u)" by (rule rne_mono)
  then have "(of_int (rne (x / u)) :: rat) \<le> of_int (rne (y / u))" by simp
  with u have "of_int (rne (x / u)) * u \<le> of_int (rne (y / u)) * u"
    by (simp only: mult_le_cancel_right_pos)
  then show ?thesis by (simp add: fl_pos_def Let_def True u_def)
next
  case False
  from assms have y: "0 < y" by simp
  from False expo_mono [OF assms] have "expo x + 1 \<le> expo y" by simp
  then have "(2::rat) powi (expo x + 1) \<le> 2 powi expo y"
    by (intro power_int_increasing) simp_all
  with fl_pos_bounds [OF assms(1)] fl_pos_bounds [OF y] show ?thesis by linarith
qed

lemma fl_pos_pos: "0 < x \<Longrightarrow> 0 < fl_pos x"
  using fl_pos_bounds [of x] two_powi_pos [of "expo x"] by linarith

lemma fl_mono:
  assumes "x \<le> y"
  shows "fl x \<le> fl y"
proof -
  consider "0 < x" | "x = 0" | "x < 0" "0 \<le> y" | "x < 0" "y < 0" by linarith
  then show ?thesis
  proof cases
    case 1
    with assms fl_pos_mono [of x y] show ?thesis by (simp add: fl_def)
  next
    case 2
    with assms fl_pos_pos [of y] show ?thesis by (auto simp: fl_def less_imp_le)
  next
    case 3
    with fl_pos_pos [of "- x"] fl_pos_pos [of y] show ?thesis
      by (cases "y = 0") (auto simp: fl_def)
  next
    case 4
    with assms fl_pos_mono [of "- y" "- x"] show ?thesis by (simp add: fl_def)
  qed
qed

lemma fl_0 [simp]: "fl 0 = 0"
  by (simp add: fl_def)

lemma fl_nonneg: "0 \<le> x \<Longrightarrow> 0 \<le> fl x"
  using fl_mono [of 0 x] by simp

section \<open>The retry loop\<close>

text \<open>
  For a cell drawn from the grid the test on the strip always succeeds, so a pass of the
  loop returns exactly when the drawn cell is not excluded. The loop therefore returns the
  first drawn cell that is not excluded, and returns nothing when there is none.
\<close>

lemma grid_consts: "GRID_COLS = 40" "GRID_ROWS = 27"
  by (simp_all add: GRID_COLS_def GRID_ROWS_def SCREEN_WIDTH_def SCREEN_HEIGHT_def
      CELL_SIZE_def UI_HEIGHT_def)

lemma fl_consts: "fl 10 = 10" "fl 520 = 520" "fl 530 = 530"
  by code_simp+

lemma screen_y_below_ui:
  assumes "row < GRID_ROWS"
  shows "fl (fl (of_int (row * CELL_SIZE)) + fl (of_int CELL_SIZE / 2))
           < of_int (SCREEN_HEIGHT - UI_HEIGHT)"
proof -
  from assms have "row * CELL_SIZE \<le> 520" by (simp add: grid_consts CELL_SIZE_def)
  then have "(of_int (row * CELL_SIZE) :: rat) \<le> 520"
    by (metis of_int_le_iff of_int_numeral)
  then have "fl (of_int (row * CELL_SIZE)) \<le> fl 520" by (rule fl_mono)
  moreover have "fl (of_int CELL_SIZE / 2) = 10" by (simp add: CELL_SIZE_def fl_consts)
  ultimately have "fl (of_int (row * CELL_SIZE)) + fl (of_int CELL_SIZE / 2) \<le> 530"
    by (simp add: fl_consts)
  then have "fl (fl (of_int (row * CELL_SIZE)) + fl (of_int CELL_SIZE / 2)) \<le> fl 530"
    by (rule fl_mono)
  then show ?thesis by (simp add: fl_consts SCREEN_HEIGHT_def UI_HEIGHT_def)
qed

lemma accepts_iff: "snd p < GRID_ROWS \<Longrightarrow> accepts excluded p \<longleftrightarrow> p \<notin> excluded"
  using screen_y_below_ui [of "snd p"] by (simp add: accepts_def Let_def del: of_int_mult of_int_diff)

lemma cell_at_in_grid: "in_grid (cell_at r n)"
  by (simp add: in_grid_def cell_at_def grid_consts)

lemma drop_draws_2: "drop_draws 2 r = (\<lambda>i. r (Suc (Suc i)))"
  by (simp add: drop_draws_def)

lemma accepts_cell_at: "accepts excluded (cell_at r n) \<longleftrightarrow> cell_at r n \<notin> excluded"
  using cell_at_in_grid [of r n] by (intro accepts_iff) (simp add: in_grid_def)

lemma random_grid_position_unfold:
  "random_grid_position r excluded =
     (if cell_at r 0 \<notin> excluded then Some (Inr (cell_at r 0, drop_draws 2 r))
      else random_grid_position (drop_draws 2 r) excluded)"
proof -
  have c: "(int (r 0 mod 40), int (r (Suc 0) mod 27)) = cell_at r 0"
    by (simp add: cell_at_def grid_consts)
  show ?thesis
    by (subst random_grid_position.simps)
      (simp add: randrange_def grid_consts Let_def c accepts_cell_at drop_draws_2)
qed

lemma cell_at_drop_2: "cell_at (drop_draws 2 r) n = cell_at r (Suc n)"
  by (simp add: cell_at_def drop_draws_def)

lemma drop_draws_Suc: "drop_draws (2 * Suc n) (drop_draws 2 r) = drop_draws (2 * Suc (Suc n)) r"
  by (simp add: drop_draws_def)

lemma random_grid_position_first_hit:
  assumes "cell_at r n \<notin> excluded" and "\<forall>m<n. cell_at r m \<in> excluded"
  shows "random_grid_position r excluded = Some (Inr (cell_at r n, drop_draws (2 * Suc n) r))"
  using assms
proof (induction n arbitrary: r)
  case 0
  then show ?case by (subst random_grid_position_unfold) simp
next
  case (Suc n)
  from Suc.prems(2) have c0: "cell_at r 0 \<in> excluded" by simp
  have "cell_at (drop_draws 2 r) n \<notin> excluded"
    using Suc.prems(1) by (simp add: cell_at_drop_2)
  moreover have "\<forall>m<n. cell_at (drop_draws 2 r) m \<in> excluded"
    using Suc.prems(2) by (auto simp add: cell_at_drop_2)
  ultimately have "random_grid_position (drop_draws 2 r) excluded =
      Some (Inr (cell_at (drop_draws 2 r) n, drop_draws (2 * Suc n) (drop_draws 2 r)))"
    by (rule Suc.IH)
  then have "random_grid_position (drop_draws 2 r) excluded =
      Some (Inr (cell_at r (Suc n), drop_draws (2 * Suc (Suc n)) r))"
    by (simp only: cell_at_drop_2 drop_draws_Suc)
  with c0 show ?case
    by (subst random_grid_position_unfold) simp
qed

lemma random_grid_position_Some_hit:
  assumes "random_grid_position r excluded = Some y"
  shows "\<exists>n. cell_at r n \<notin> excluded"
proof (rule random_grid_position.raw_induct
    [where P = "\<lambda>r excluded y. \<exists>n. cell_at r n \<notin> excluded", OF _ assms])
  fix rgp :: "rng \<Rightarrow> (int \<times> int) set \<Rightarrow> (py_error + (int \<times> int) \<times> rng) option"
  fix r excluded y
  assume IH: "\<And>r excluded y. rgp r excluded = Some y \<Longrightarrow> \<exists>n. cell_at r n \<notin> excluded"
  assume body: "(case randrange 0 GRID_COLS r of
        Inl e \<Rightarrow> Some (Inl e)
      | Inr (col, r1) \<Rightarrow>
          (case randrange 0 GRID_ROWS r1 of
             Inl e \<Rightarrow> Some (Inl e)
           | Inr (row, r2) \<Rightarrow>
               (let pos = (col, row) in
                if accepts excluded pos then Some (Inr (pos, r2))
                else rgp r2 excluded))) = Some y"
  have c: "(int (r 0 mod 40), int (r (Suc 0) mod 27)) = cell_at r 0"
    by (simp add: cell_at_def grid_consts)
  show "\<exists>n. cell_at r n \<notin> excluded"
  proof (cases "cell_at r 0 \<in> excluded")
    case False
    then show ?thesis by blast
  next
    case True
    with body have "rgp (drop_draws 2 r) excluded = Some y"
      by (simp add: randrange_def grid_consts Let_def c accepts_cell_at drop_draws_2)
    then have "\<exists>n. cell_at (drop_draws 2 r) n \<notin> excluded" by (rule IH)
    then show ?thesis by (auto simp add: cell_at_drop_2)
  qed
qed

lemma random_grid_position_diverges:
  "\<forall>n. cell_at r n \<in> excluded \<Longrightarrow> random_grid_position r excluded = None"
  using random_grid_position_Some_hit [of r excluded] by (cases "random_grid_position r excluded") auto

lemma random_grid_position_Some:
  assumes "random_grid_position r excluded = Some y"
  obtains n where "cell_at r n \<notin> excluded" and "\<forall>m<n. cell_at r m \<in> excluded"
    and "y = Inr (cell_at r n, drop_draws (2 * Suc n) r)"
proof -
  define n where "n = (LEAST n. cell_at r n \<notin> excluded)"
  from random_grid_position_Some_hit [OF assms] have hit: "cell_at r n \<notin> excluded"
    unfolding n_def by (rule LeastI_ex)
  have first: "\<forall>m<n. cell_at r m \<in> excluded"
    unfolding n_def using not_less_Least by blast
  from random_grid_position_first_hit [OF hit first] assms
  have "y = Inr (cell_at r n, drop_draws (2 * Suc n) r)" by simp
  with hit first that show thesis by blast
qed

lemma random_grid_position_sound:
  assumes "random_grid_position r excluded = Some (Inr (p, r'))"
  shows "p \<notin> excluded \<and> in_grid p"
  using assms cell_at_in_grid by (auto elim!: random_grid_position_Some)

lemma random_grid_position_0:
  "cell_at r 0 \<notin> excluded \<Longrightarrow>
   random_grid_position r excluded = Some (Inr (cell_at r 0, drop_draws 2 r))"
  by (subst random_grid_position_unfold) simp

lemma first_free_draw:
  assumes "\<exists>n. cell_at r n \<notin> excluded"
  obtains n where "cell_at r n \<notin> excluded" and "\<forall>m<n. cell_at r m \<in> excluded"
proof -
  define n where "n = (LEAST n. cell_at r n \<notin> excluded)"
  from assms have "cell_at r n \<notin> excluded" unfolding n_def by (rule LeastI_ex)
  moreover have "\<forall>m<n. cell_at r m \<in> excluded"
    unfolding n_def using not_less_Least by blast
  ultimately show thesis by (rule that)
qed

section \<open>The invariant of the reachable states\<close>

text \<open>
  \<open>game_inv\<close> holds after \<open>setup\<close> and is kept by every frame and every key.
\<close>

lemma interval_at_1: "interval_at 1 = MOVE_INTERVAL_START"
  by code_simp

lemma spawn_food_Inr:
  assumes "spawn_food g r = Some (Inr (g', r'))"
  obtains p where "g' = g\<lparr>food := p\<rparr>" "p \<notin> set (snake g)" "in_grid p"
proof -
  from assms obtain p where rgp: "random_grid_position r (set (snake g)) = Some (Inr (p, r'))"
    and g': "g' = g\<lparr>food := p\<rparr>"
    by (auto simp: spawn_food_def split: option.splits sum.splits)
  from random_grid_position_sound [OF rgp] g' that show thesis by blast
qed

lemma setup_game_Inr:
  assumes "setup_game g r = Some (Inr (g', r'))"
  shows "game_inv g' \<and> \<not> game_over g' \<and> score g' = 0 \<and> level g' = 1 \<and>
         length (snake g') = 3 \<and> move_interval g' = MOVE_INTERVAL_START"
proof -
  from assms obtain c rw r2 g3 where
    sp: "spawn_food (g\<lparr>score := 0, level := 1, game_over := False,
           snake := [(c, rw), (c - 1, rw), (c - 2, rw)],
           direction := (1, 0), next_direction := (1, 0)\<rparr>) r2 = Some (Inr (g3, r'))"
    and g': "g' = g3\<lparr>move_interval := MOVE_INTERVAL_START, time_since_move := 0\<rparr>"
    by (auto simp: setup_game_def Let_def split: sum.splits option.splits)
  from sp obtain p where g3: "g3 = (g\<lparr>score := 0, level := 1, game_over := False,
           snake := [(c, rw), (c - 1, rw), (c - 2, rw)],
           direction := (1, 0), next_direction := (1, 0)\<rparr>)\<lparr>food := p\<rparr>"
    and p: "p \<notin> set [(c, rw), (c - 1, rw), (c - 2, rw)]" "in_grid p"
    by (auto elim!: spawn_food_Inr)
  from g' g3 p show ?thesis
    by (simp add: game_inv_def interval_at_1)
qed

lemma update_level_and_speed_eq:
  "update_level_and_speed g =
     g\<lparr>level := 1 + score g div 5, move_interval := interval_at (1 + score g div 5)\<rparr>"
proof (cases "level g = 1 + score g div 5")
  case True
  then have "g\<lparr>level := 1 + score g div 5\<rparr> = g" by simp
  with True show ?thesis
    by (simp add: update_level_and_speed_def Let_def interval_at_def del: of_int_diff of_int_add)
next
  case False
  then show ?thesis
    by (simp add: update_level_and_speed_def Let_def interval_at_def del: of_int_diff of_int_add)
qed

lemma distinct_butlast_Cons:
  "distinct xs \<Longrightarrow> h \<notin> set xs \<Longrightarrow> distinct (butlast (h # xs))"
  by (metis distinct.simps(2) distinct_butlast)

lemma step_snake_inv:
  assumes inv: "game_inv g" and st: "step_snake g r = Some (Inr (g', r'))"
  shows "game_inv g'"
proof -
  from inv have ne: "snake g \<noteq> []" by (auto simp: game_inv_def)
  then obtain hc hr tl where sn: "snake g = (hc, hr) # tl" by (cases "snake g") auto
  obtain dx dy where nd: "next_direction g = (dx, dy)" by (cases "next_direction g")
  let ?nh = "(hc + dx, hr + dy)"
  let ?g1 = "g\<lparr>direction := next_direction g\<rparr>"
  show ?thesis
  proof (cases "\<not> (0 \<le> hc + dx \<and> hc + dx < GRID_COLS \<and> 0 \<le> hr + dy \<and> hr + dy < GRID_ROWS)
                  \<or> ?nh \<in> set (snake g)")
    case True
    with st sn nd have "g' = ?g1\<lparr>game_over := True\<rparr>"
      by (auto simp: step_snake_def Let_def split: if_splits)
    with inv show ?thesis by (simp add: game_inv_def)
  next
    case False
    show ?thesis
    proof (cases "?nh = food g")
      case True
      with False st sn nd obtain g3 where
        sp: "spawn_food (?g1\<lparr>snake := ?nh # snake g, score := score g + 1\<rparr>) r = Some (Inr (g3, r'))"
        and g': "g' = update_level_and_speed g3"
        by (auto simp: step_snake_def Let_def split: if_splits option.splits sum.splits)
      from sp obtain p where g3: "g3 = (?g1\<lparr>snake := ?nh # snake g, score := score g + 1\<rparr>)\<lparr>food := p\<rparr>"
        and p: "p \<notin> set (?nh # snake g)" "in_grid p"
        by (auto elim!: spawn_food_Inr)
      from inv False g' g3 p show ?thesis
        by (simp add: game_inv_def update_level_and_speed_eq)
    next
      case nf: False
      with False st sn nd have g': "g' = ?g1\<lparr>snake := butlast (?nh # snake g)\<rparr>"
        by (auto simp: step_snake_def Let_def split: if_splits)
      from inv False have d: "distinct (butlast (?nh # snake g))"
        by (intro distinct_butlast_Cons) (auto simp: game_inv_def)
      from inv nf have f: "food g \<notin> set (butlast (?nh # snake g))"
        by (auto simp: game_inv_def dest: in_set_butlastD)
      have l: "length (butlast (?nh # snake g)) = length (snake g)" by simp
      from inv g' d f l show ?thesis
        by (simp add: game_inv_def del: butlast.simps)
    qed
  qed
qed

lemma on_update_inv:
  assumes "game_inv g" and "on_update dt g r = Some (Inr (g', r'))"
  shows "game_inv g'"
proof (cases "game_over g")
  case True
  with assms show ?thesis by (simp add: on_update_def)
next
  case False
  let ?g1 = "g\<lparr>time_since_move := fl (time_since_move g + dt)\<rparr>"
  have i1: "game_inv ?g1" "game_inv (?g1\<lparr>time_since_move := 0\<rparr>)"
    using assms(1) by (simp_all add: game_inv_def)
  show ?thesis
  proof (cases "move_interval g \<le> fl (time_since_move g + dt)")
    case True
    with False assms(2) have "step_snake (?g1\<lparr>time_since_move := 0\<rparr>) r = Some (Inr (g', r'))"
      by (simp add: on_update_def Let_def)
    with i1(2) show ?thesis by (rule step_snake_inv)
  next
    case nt: False
    with False assms(2) have "g' = ?g1" by (simp add: on_update_def Let_def)
    with i1 show ?thesis by simp
  qed
qed

lemma try_set_direction_inv: "game_inv g \<Longrightarrow> game_inv (try_set_direction dx dy g)"
  by (simp add: try_set_direction_def game_inv_def split: prod.splits)

lemma on_key_press_inv:
  assumes "game_inv g" and "on_key_press k m g r = Some (Inr (g', r'))"
  shows "game_inv g'"
  using assms
  by (auto simp: on_key_press_def try_set_direction_inv split: if_splits dest: setup_game_Inr)

lemma reachable_inv: "reachable c \<Longrightarrow> game_inv (fst c)"
proof (induction rule: reachable.induct)
  case (start r c)
  then show ?case by (cases c) (auto dest: setup_game_Inr)
next
  case (frame g r delta_time c)
  then show ?case by (cases c) (auto dest: on_update_inv)
next
  case (press g r key modifiers c)
  then show ?case by (cases c) (auto dest: on_key_press_inv)
qed

section \<open>The branches of a step\<close>

text \<open>
  \<open>step_snake\<close> has four outcomes: a wall, the snake itself, a food, a plain move. The
  lemmas give each of them, then what a frame and a key do to the fields the claims are
  about.
\<close>

lemma step_snake_wall:
  assumes "snake g = (hc, hr) # rest" and "next_direction g = (dx, dy)"
    and "\<not> in_grid (hc + dx, hr + dy)"
  shows "step_snake g r = Some (Inr (g\<lparr>direction := (dx, dy), game_over := True\<rparr>, r))"
  using assms by (simp add: step_snake_def Let_def in_grid_def)

lemma step_snake_self:
  assumes "snake g = (hc, hr) # rest" and "next_direction g = (dx, dy)"
    and "(hc + dx, hr + dy) \<in> set (snake g)"
  shows "step_snake g r = Some (Inr (g\<lparr>direction := (dx, dy), game_over := True\<rparr>, r))"
  using assms by (simp add: step_snake_def Let_def)

lemma step_snake_eat:
  assumes "snake g = (hc, hr) # rest" and "next_direction g = (dx, dy)"
    and "in_grid (hc + dx, hr + dy)" and "(hc + dx, hr + dy) \<notin> set (snake g)"
    and "food g = (hc + dx, hr + dy)"
  shows "step_snake g r =
    (case spawn_food (g\<lparr>direction := (dx, dy), snake := (hc + dx, hr + dy) # snake g,
                          score := score g + 1\<rparr>) r of
       None \<Rightarrow> None
     | Some (Inl e) \<Rightarrow> Some (Inl e)
     | Some (Inr (g3, r')) \<Rightarrow> Some (Inr (update_level_and_speed g3, r')))"
  using assms by (auto simp add: step_snake_def Let_def in_grid_def)

lemma step_snake_move:
  assumes "snake g = (hc, hr) # rest" and "next_direction g = (dx, dy)"
    and "in_grid (hc + dx, hr + dy)" and "(hc + dx, hr + dy) \<notin> set (snake g)"
    and "food g \<noteq> (hc + dx, hr + dy)"
  shows "step_snake g r =
    Some (Inr (g\<lparr>direction := (dx, dy),
                   snake := butlast ((hc + dx, hr + dy) # snake g)\<rparr>, r))"
  using assms by (auto simp add: step_snake_def Let_def in_grid_def)

lemma step_snake_cases:
  assumes "step_snake g r = Some (Inr (g', r'))"
  obtains
    (over) "collides g" "g' = g\<lparr>direction := next_direction g, game_over := True\<rparr>" "r' = r"
  | (eat) p where "eats g" "p \<notin> set (new_head g # snake g)" "in_grid p"
      "g' = update_level_and_speed
         (g\<lparr>direction := next_direction g, snake := new_head g # snake g,
             score := score g + 1, food := p\<rparr>)"
  | (move) "\<not> collides g" "\<not> eats g" "r' = r"
      "g' = g\<lparr>direction := next_direction g, snake := butlast (new_head g # snake g)\<rparr>"
proof -
  from assms obtain hc hr rest where sn: "snake g = (hc, hr) # rest"
    by (cases "snake g") (auto simp: step_snake_def)
  obtain dx dy where nd: "next_direction g = (dx, dy)" by (cases "next_direction g")
  have nh: "new_head g = (hc + dx, hr + dy)" by (simp add: new_head_def sn nd)
  show thesis
  proof (cases "collides g")
    case True
    then have "step_snake g r = Some (Inr (g\<lparr>direction := (dx, dy), game_over := True\<rparr>, r))"
      unfolding collides_def nh
      using step_snake_wall [OF sn nd] step_snake_self [OF sn nd] by blast
    with assms True over nd show thesis by simp
  next
    case False
    then have ok: "in_grid (hc + dx, hr + dy)" "(hc + dx, hr + dy) \<notin> set (snake g)"
      by (simp_all add: collides_def nh)
    show thesis
    proof (cases "food g = (hc + dx, hr + dy)")
      case True
      with ok have e: "eats g" by (simp add: eats_def nh)
      from assms step_snake_eat [OF sn nd ok True, of r] obtain g3 where
        sp: "spawn_food (g\<lparr>direction := (dx, dy), snake := (hc + dx, hr + dy) # snake g,
                          score := score g + 1\<rparr>) r = Some (Inr (g3, r'))"
        and g': "g' = update_level_and_speed g3"
        by (auto split: option.splits sum.splits)
      from sp obtain p where "g3 = g\<lparr>direction := (dx, dy),
          snake := (hc + dx, hr + dy) # snake g, score := score g + 1, food := p\<rparr>"
        and "p \<notin> set ((hc + dx, hr + dy) # snake g)" and "in_grid p"
        by (auto elim!: spawn_food_Inr)
      with e g' eat nd nh show thesis by simp
    next
      case nf: False
      then have ne: "\<not> eats g" by (auto simp add: eats_def nh)
      from assms step_snake_move [OF sn nd ok nf, of r] False ne move nd nh
      show thesis by simp
    qed
  qed
qed

lemma step_snake_collides:
  assumes "snake g \<noteq> []" and "collides g"
  shows "step_snake g r = Some (Inr (g\<lparr>direction := next_direction g, game_over := True\<rparr>, r))"
proof -
  from assms(1) obtain hc hr rest where sn: "snake g = (hc, hr) # rest"
    by (cases "snake g") auto
  obtain dx dy where nd: "next_direction g = (dx, dy)" by (cases "next_direction g")
  have nh: "new_head g = (hc + dx, hr + dy)" by (simp add: new_head_def sn nd)
  from assms(2) show ?thesis
    unfolding collides_def nh nd
    using step_snake_wall [OF sn nd] step_snake_self [OF sn nd] by blast
qed

lemma step_snake_direction:
  assumes "step_snake g r = Some (Inr (g', r'))"
  shows "direction g' = next_direction g"
  using assms
  by (cases rule: step_snake_cases) (simp_all add: update_level_and_speed_eq)

lemma step_snake_growth:
  assumes "step_snake g r = Some (Inr (g', r'))"
  shows "if eats g
         then length (snake g') = length (snake g) + 1 \<and> score g' = score g + 1
         else length (snake g') = length (snake g) \<and> score g' = score g"
  using assms
proof (cases rule: step_snake_cases)
  case over
  then have "\<not> eats g" by (auto simp: collides_def eats_def)
  with over show ?thesis by simp
next
  case (eat p)
  then show ?thesis by (simp add: update_level_and_speed_eq)
next
  case move
  then show ?thesis by simp
qed

lemma on_update_fires:
  assumes "\<not> game_over g" and "move_interval g \<le> fl (time_since_move g + delta_time)"
  shows "on_update delta_time g r = step_snake (g\<lparr>time_since_move := 0\<rparr>) r"
  using assms by (simp add: on_update_def Let_def)

lemma on_update_game_over: "game_over g \<Longrightarrow> on_update delta_time g r = Some (Inr (g, r))"
  by (simp add: on_update_def)

lemma on_update_score:
  assumes "on_update delta_time g r = Some (Inr (g', r'))"
  shows "score g \<le> score g'"
proof (cases "game_over g \<or> \<not> move_interval g \<le> fl (time_since_move g + delta_time)")
  case True
  with assms show ?thesis by (auto simp: on_update_def Let_def split: if_splits)
next
  case False
  with assms have "step_snake (g\<lparr>time_since_move := 0\<rparr>) r = Some (Inr (g', r'))"
    by (simp add: on_update_fires)
  from step_snake_growth [OF this] show ?thesis by (simp split: if_splits)
qed

lemma try_set_direction_eq:
  "try_set_direction dx dy g =
     (if (dx, dy) = opposite (direction g) then g else g\<lparr>next_direction := (dx, dy)\<rparr>)"
  by (simp add: try_set_direction_def opposite_def split: prod.splits)

lemma on_key_press_arrow:
  assumes "(key, d) \<in> set arrow_keys"
  shows "on_key_press key modifiers g r =
    Some (Inr (if game_over g then g else try_set_direction (fst d) (snd d) g, r))"
  using assms
  by (auto simp: arrow_keys_def on_key_press_def key_R_def key_UP_def key_DOWN_def
      key_LEFT_def key_RIGHT_def)

lemma on_key_press_score:
  assumes "on_key_press key modifiers g r = Some (Inr (g', r'))" and "key \<noteq> key_R"
  shows "score g' = score g"
  using assms by (auto simp: on_key_press_def try_set_direction_eq split: if_splits)

lemma episode_reachable_score:
  assumes "episode c c'" and "reachable c"
  shows "reachable c' \<and> score (fst c) \<le> score (fst c')"
  using assms
proof (induction rule: episode.induct)
  case (same c)
  then show ?case by simp
next
  case (frame c g r delta_time c')
  then have "reachable (g, r)" "score (fst c) \<le> score g" by simp_all
  moreover from this(1) frame.hyps(2) have "reachable c'" by (rule reachable.frame)
  moreover have "score g \<le> score (fst c')"
    using frame.hyps(2) by (cases c') (auto dest: on_update_score)
  ultimately show ?case by simp
next
  case (press c g r key modifiers c')
  then have "reachable (g, r)" "score (fst c) \<le> score g" by simp_all
  moreover from this(1) press.hyps(3) have "reachable c'" by (rule reachable.press)
  moreover have "score (fst c') = score g"
    using press.hyps(2,3) by (cases c') (auto dest: on_key_press_score)
  ultimately show ?case by simp
qed

lemma spawn_food_first_hit:
  assumes "cell_at r n \<notin> set (snake g)" and "\<forall>m<n. cell_at r m \<in> set (snake g)"
  shows "spawn_food g r = Some (Inr (g\<lparr>food := cell_at r n\<rparr>, drop_draws (2 * Suc n) r))"
  using random_grid_position_first_hit [OF assms] by (simp add: spawn_food_def)

lemma eats_time [simp]: "eats (g\<lparr>time_since_move := t\<rparr>) = eats g"
  by (simp add: eats_def new_head_def)

lemma collides_time [simp]: "collides (g\<lparr>time_since_move := t\<rparr>) = collides g"
  by (simp add: collides_def new_head_def)

lemma step_snake_returns:
  assumes "snake g \<noteq> []"
    and "eats g \<longrightarrow> (\<exists>n. cell_at r n \<notin> set (new_head g # snake g))"
  shows "\<exists>g' r'. step_snake g r = Some (Inr (g', r')) \<and> direction g' = next_direction g"
proof -
  from assms(1) obtain hc hr rest where sn: "snake g = (hc, hr) # rest"
    by (cases "snake g") auto
  obtain dx dy where nd: "next_direction g = (dx, dy)" by (cases "next_direction g")
  have nh: "new_head g = (hc + dx, hr + dy)" by (simp add: new_head_def sn nd)
  show ?thesis
  proof (cases "collides g")
    case True
    from step_snake_collides [OF assms(1) True, of r] show ?thesis by simp
  next
    case False
    then have ok: "in_grid (hc + dx, hr + dy)" "(hc + dx, hr + dy) \<notin> set (snake g)"
      by (simp_all add: collides_def nh)
    show ?thesis
    proof (cases "eats g")
      case True
      then have f: "food g = (hc + dx, hr + dy)" by (simp add: eats_def nh)
      let ?h = "g\<lparr>direction := (dx, dy), snake := (hc + dx, hr + dy) # snake g,
                   score := score g + 1\<rparr>"
      from True assms(2) have "\<exists>n. cell_at r n \<notin> set (snake ?h)" by (simp add: nh)
      then obtain n where "cell_at r n \<notin> set (snake ?h)" "\<forall>m<n. cell_at r m \<in> set (snake ?h)"
        by (rule first_free_draw)
      from spawn_food_first_hit [OF this] step_snake_eat [OF sn nd ok f, of r] nd
      show ?thesis by (simp add: update_level_and_speed_eq)
    next
      case False
      then have "food g \<noteq> (hc + dx, hr + dy)" using ok by (auto simp: eats_def nh)
      from step_snake_move [OF sn nd ok this, of r] nd show ?thesis by simp
    qed
  qed
qed

section \<open>The move interval\<close>

text \<open>
  The interval is clamped between the doubles of \<open>0.06\<close> and \<open>0.20\<close>, and it is an
  antitone function of the level, because every rounded operation of
  \<open>update_level_and_speed\<close> is monotone.
\<close>

lemma fl_1: "fl 1 = 1"
  by code_simp

lemma clamp_range:
  "lo \<le> hi \<Longrightarrow> lo \<le> clamp v lo hi \<and> clamp v lo hi \<le> hi"
  by (auto simp: clamp_def)

lemma clamp_mono: "v \<le> w \<Longrightarrow> clamp v lo hi \<le> clamp w lo hi"
  by (auto simp: clamp_def max_def min_def)

lemma interval_consts: "MOVE_INTERVAL_MIN \<le> MOVE_INTERVAL_START" "MOVE_INTERVAL_START \<le> 1"
  by code_simp+

lemma interval_at_range:
  "MOVE_INTERVAL_MIN \<le> interval_at l \<and> interval_at l \<le> MOVE_INTERVAL_START"
  unfolding interval_at_def by (rule clamp_range) (rule interval_consts)

lemma LEVEL_STEP_nonneg: "0 \<le> LEVEL_STEP"
  unfolding LEVEL_STEP_def by (rule fl_nonneg) simp

lemma interval_at_antimono:
  assumes "l \<le> l'"
  shows "interval_at l' \<le> interval_at l"
proof -
  from assms have "(of_int (l - 1) :: rat) \<le> of_int (l' - 1)" by simp
  then have "fl (of_int (l - 1)) \<le> fl (of_int (l' - 1))" by (rule fl_mono)
  then have "fl (of_int (l - 1)) * LEVEL_STEP \<le> fl (of_int (l' - 1)) * LEVEL_STEP"
    using LEVEL_STEP_nonneg by (rule mult_right_mono)
  then have "fl (fl (of_int (l - 1)) * LEVEL_STEP) \<le> fl (fl (of_int (l' - 1)) * LEVEL_STEP)"
    by (rule fl_mono)
  then have "MOVE_INTERVAL_START - fl (fl (of_int (l' - 1)) * LEVEL_STEP)
      \<le> MOVE_INTERVAL_START - fl (fl (of_int (l - 1)) * LEVEL_STEP)"
    by simp
  then have "fl (MOVE_INTERVAL_START - fl (fl (of_int (l' - 1)) * LEVEL_STEP))
      \<le> fl (MOVE_INTERVAL_START - fl (fl (of_int (l - 1)) * LEVEL_STEP))"
    by (rule fl_mono)
  then show ?thesis unfolding interval_at_def by (rule clamp_mono)
qed

lemma reachable_interval_antimono:
  assumes "reachable (g, r)" and "reachable (h, s)" and "score g \<le> score h"
  shows "move_interval h \<le> move_interval g"
proof -
  from assms(1,2) have i: "game_inv g" "game_inv h" by (auto dest: reachable_inv)
  from assms(3) have "1 + score g div 5 \<le> 1 + score h div 5"
    by (simp add: zdiv_mono1)
  then have "interval_at (1 + score h div 5) \<le> interval_at (1 + score g div 5)"
    by (rule interval_at_antimono)
  with i show ?thesis by (simp add: game_inv_def)
qed

lemma interval_values:
  "MOVE_INTERVAL_START = 3602879701896397 / 2 ^ 54"
  "MOVE_INTERVAL_MIN = 1080863910568919 / 2 ^ 54"
  "interval_at 2 = 6485183463413515 / 2 ^ 55"
  "fl (18 / 100) = 6485183463413514 / 2 ^ 55"
  by code_simp+

section \<open>The sample runs\<close>

text \<open>The run that eats five foods in a row: every state of it is reachable.\<close>

lemma demo_rng_drop: "drop_draws j (demo_rng k) = demo_rng (k + j)"
  by (simp add: drop_draws_def demo_rng_def ac_simps)

lemma demo_snake_set: "set (demo_snake n) = (\<lambda>i. (i, 1)) ` {0..int n + 2}"
proof (induction n)
  case 0
  have "{0..2::int} = {0, 1, 2}" by auto
  then show ?case by auto
next
  case (Suc n)
  have "{0..int (Suc n) + 2} = insert (int n + 3) {0..int n + 2}" by auto
  with Suc show ?case by simp
qed

lemma demo_snake_head: "\<exists>rest. demo_snake n = (int n + 2, 1) # rest"
  by (cases n) simp_all

lemma randrange_demo:
  "a < b \<Longrightarrow>
   randrange a b (demo_rng k) = Inr (a + int (demo_draw k mod nat (b - a)), demo_rng (Suc k))"
  by (simp add: randrange_def demo_rng_def)

lemma demo_spawn:
  assumes "(int n + 4, 1) \<notin> set (snake g)" and "(0, 0) \<notin> set (snake g)"
  shows "spawn_food g (demo_rng (4 + 2 * n)) =
    Some (Inr (g\<lparr>food := (if n < 4 then (int n + 4, 1) else (0, 0))\<rparr>, demo_rng (6 + 2 * n)))"
proof -
  have c: "cell_at (demo_rng (4 + 2 * n)) 0 = (if n < 4 then (int n + 4, 1) else (0, 0))"
    by (simp add: cell_at_def demo_rng_def demo_draw_def grid_consts)
  with assms have "cell_at (demo_rng (4 + 2 * n)) 0 \<notin> set (snake g)" by simp
  from random_grid_position_0 [OF this] show ?thesis
    by (simp add: spawn_food_def c demo_rng_drop)
qed

lemma demo_setup: "setup_game SnakeGame_init (demo_rng 0) = Some (Inr (demo_game 0, demo_rng 4))"
proof -
  have r0: "randrange 2 (GRID_COLS - 2) (demo_rng 0) = Inr (2, demo_rng (Suc 0))"
    by (simp add: randrange_demo grid_consts demo_draw_def)
  have "demo_rng (Suc (Suc 0)) = demo_rng 2" by (simp add: numeral_2_eq_2)
  then have r1: "randrange 1 (GRID_ROWS - 1) (demo_rng (Suc 0)) = Inr (1, demo_rng 2)"
    by (simp add: randrange_demo grid_consts demo_draw_def)
  have c: "cell_at (demo_rng 2) 0 = (3, 1)"
    by (simp add: cell_at_def demo_rng_def demo_draw_def grid_consts)
  have "random_grid_position (demo_rng 2) (set [(2, 1), (1, 1), (0, 1)])
          = Some (Inr ((3, 1), demo_rng 4))"
    using random_grid_position_0 [of "demo_rng 2" "set [(2, 1), (1, 1), (0, 1)]"]
    by (simp add: c demo_rng_drop)
  then show ?thesis
    by (simp add: setup_game_def spawn_food_def r0 r1 SnakeGame_init_def demo_game_def
        interval_at_1)
qed

lemma demo_frame:
  assumes "n < 5"
  shows "on_update 1 (demo_game n) (demo_rng (4 + 2 * n)) =
           Some (Inr (demo_game (Suc n), demo_rng (6 + 2 * n)))"
proof -
  obtain rest where hd: "demo_snake n = (int n + 2, 1) # rest"
    using demo_snake_head by blast
  have timer: "move_interval (demo_game n) \<le> fl (time_since_move (demo_game n) + 1)"
    using interval_at_range [of "1 + int n div 5"] interval_consts(2)
    by (simp add: demo_game_def fl_1)
  let ?g = "(demo_game n)\<lparr>time_since_move := 0, direction := (1, 0),
               snake := (int n + 3, 1) # demo_snake n, score := int n + 1\<rparr>"
  have fresh: "(int n + 3, 1) \<notin> set (demo_snake n)"
    by (auto simp: demo_snake_set)
  have sp: "spawn_food ?g (demo_rng (4 + 2 * n)) =
      Some (Inr (?g\<lparr>food := (if n < 4 then (int n + 4, 1) else (0, 0))\<rparr>, demo_rng (6 + 2 * n)))"
    by (rule demo_spawn) (auto simp: demo_snake_set)
  let ?s = "(demo_game n)\<lparr>time_since_move := 0\<rparr>"
  have g: "?s\<lparr>direction := (1, 0), snake := (int n + 2 + 1, 1 + 0) # snake ?s,
                 score := score ?s + 1\<rparr> = ?g"
    by (simp add: demo_game_def)
  have "step_snake ?s (demo_rng (4 + 2 * n)) =
    (case spawn_food (?s\<lparr>direction := (1, 0), snake := (int n + 2 + 1, 1 + 0) # snake ?s,
                          score := score ?s + 1\<rparr>) (demo_rng (4 + 2 * n)) of
       None \<Rightarrow> None
     | Some (Inl e) \<Rightarrow> Some (Inl e)
     | Some (Inr (g3, r')) \<Rightarrow> Some (Inr (update_level_and_speed g3, r')))"
  proof (rule step_snake_eat [where rest = rest])
    show "snake ?s = (int n + 2, 1) # rest" by (simp add: demo_game_def hd)
    show "next_direction ?s = (1, 0)" by (simp add: demo_game_def)
    show "in_grid (int n + 2 + 1, 1 + 0)"
      using assms by (simp add: in_grid_def grid_consts)
    have "snake ?s = demo_snake n" by (simp add: demo_game_def)
    moreover have "(int n + 2 + 1, 1 + 0) = (int n + 3, 1::int)" by simp
    ultimately show "(int n + 2 + 1, 1 + 0) \<notin> set (snake ?s)"
      using fresh by (simp only:) simp
    show "food ?s = (int n + 2 + 1, 1 + 0)"
      using assms by (simp add: demo_game_def)
  qed
  then have st: "step_snake ?s (demo_rng (4 + 2 * n)) =
      Some (Inr (update_level_and_speed
        (?g\<lparr>food := (if n < 4 then (int n + 4, 1) else (0, 0))\<rparr>), demo_rng (6 + 2 * n)))"
    unfolding g sp by simp
  have "update_level_and_speed (?g\<lparr>food := (if n < 4 then (int n + 4, 1) else (0, 0))\<rparr>)
      = demo_game (Suc n)"
    using assms by (auto simp add: update_level_and_speed_eq demo_game_def add.commute)
  moreover have "\<not> game_over (demo_game n)" by (simp add: demo_game_def)
  ultimately show ?thesis
    using st timer by (simp add: on_update_fires)
qed

lemma demo_reachable: "n \<le> 5 \<Longrightarrow> reachable (demo_game n, demo_rng (4 + 2 * n))"
proof (induction n)
  case 0
  from demo_setup show ?case by (simp add: reachable.start)
next
  case (Suc n)
  then have "reachable (demo_game n, demo_rng (4 + 2 * n))" and "n < 5" by simp_all
  from reachable.frame [OF this(1) demo_frame [OF this(2)]] show ?case by simp
qed

lemma demo_step:
  assumes "n < 5"
  shows "step_snake (demo_game n) (demo_rng (4 + 2 * n)) =
           Some (Inr (demo_game (Suc n), demo_rng (6 + 2 * n)))"
proof -
  have n: "\<not> game_over (demo_game n)" and z: "(demo_game n)\<lparr>time_since_move := 0\<rparr> = demo_game n"
    by (simp_all add: demo_game_def)
  have "move_interval (demo_game n) \<le> fl (time_since_move (demo_game n) + 1)"
    using interval_at_range [of "1 + int n div 5"] interval_consts(2)
    by (simp add: demo_game_def fl_1)
  from on_update_fires [OF n this, of "demo_rng (4 + 2 * n)"] demo_frame [OF assms]
  show ?thesis by (simp add: z)
qed

lemma demo_eats: "n < 5 \<Longrightarrow> eats (demo_game n)"
proof -
  assume n: "n < 5"
  obtain rest where hd: "demo_snake n = (int n + 2, 1) # rest"
    using demo_snake_head by blast
  have nh: "new_head (demo_game n) = (int n + 3, 1)"
    by (simp add: new_head_def demo_game_def hd)
  have "(int n + 3, 1) \<notin> set (demo_snake n)" by (auto simp: demo_snake_set)
  with n show ?thesis
    by (simp add: eats_def nh in_grid_def grid_consts) (simp add: demo_game_def)
qed

lemma demo_episode: "n \<le> 5 \<Longrightarrow> episode (demo_game 0, demo_rng 4) (demo_game n, demo_rng (4 + 2 * n))"
proof (induction n)
  case 0
  show ?case by (simp add: episode.same)
next
  case (Suc n)
  then have "episode (demo_game 0, demo_rng 4) (demo_game n, demo_rng (4 + 2 * n))" and "n < 5"
    by simp_all
  from episode.frame [OF this(1) demo_frame [OF this(2)]] show ?case by simp
qed

lemma demo_turn_frame:
  "on_update 1 ((demo_game 0)\<lparr>next_direction := (0, 1)\<rparr>) (demo_rng 4) =
     Some (Inr ((demo_game 0)\<lparr>next_direction := (0, 1), time_since_move := 0,
                  direction := (0, 1), snake := [(2, 2), (2, 1), (1, 1)]\<rparr>, demo_rng 4))"
proof -
  let ?h = "(demo_game 0)\<lparr>next_direction := (0, 1)\<rparr>"
  have t: "move_interval ?h \<le> fl (time_since_move ?h + 1)"
    using interval_consts(2) by (simp add: demo_game_def interval_at_1 fl_1)
  have n: "\<not> game_over ?h" by (simp add: demo_game_def)
  have "step_snake (?h\<lparr>time_since_move := 0\<rparr>) (demo_rng 4) =
     Some (Inr (?h\<lparr>time_since_move := 0, direction := (0, 1),
                  snake := [(2, 2), (2, 1), (1, 1)]\<rparr>, demo_rng 4))"
    by (simp add: step_snake_def Let_def demo_game_def grid_consts)
  with t n show ?thesis by (simp add: on_update_fires)
qed

text \<open>The sweeping source is fair.\<close>

lemma cell_at_sweep: "cell_at sweep_rng n = (int (n mod 40), int ((1 + n div 40) mod 27))"
  by (simp add: cell_at_def sweep_rng_def grid_consts)

lemma row_shift:
  fixes k :: nat
  assumes "k < 27"
  shows "(1 + (k + 26) mod 27) mod 27 = k"
proof (cases k)
  case 0
  then show ?thesis by simp
next
  case (Suc j)
  with assms have j: "j < 26" by simp
  have "k + 26 = j + 27" using Suc by simp
  then have "(k + 26) mod 27 = j" using j by simp
  moreover from j have "Suc j mod 27 = Suc j" by simp
  ultimately show ?thesis using Suc by simp
qed

lemma fair_sweep: "fair sweep_rng"
  unfolding fair_def
proof (intro allI impI)
  fix p :: "int \<times> int"
  assume "in_grid p"
  then have c: "0 \<le> fst p" "fst p < 40" and w: "0 \<le> snd p" "snd p < 27"
    by (simp_all add: in_grid_def grid_consts)
  define q where "q = (nat (snd p) + 26) mod 27"
  define n where "n = 40 * q + nat (fst p)"
  from c have "n mod 40 = nat (fst p)" "n div 40 = q" by (simp_all add: n_def)
  moreover from w have "(1 + q) mod 27 = nat (snd p)"
    unfolding q_def by (intro row_shift) simp
  ultimately have "cell_at sweep_rng n = p"
    using c w by (simp add: cell_at_sweep prod_eq_iff)
  then show "\<exists>n. cell_at sweep_rng n = p" ..
qed

text \<open>The run towards the right wall.\<close>

lemma randrange_wall:
  "a < b \<Longrightarrow>
   randrange a b (wall_rng k) = Inr (a + int (wall_draw k mod nat (b - a)), wall_rng (Suc k))"
  by (simp add: randrange_def wall_rng_def)

lemma wall_rng_drop: "drop_draws j (wall_rng k) = wall_rng (k + j)"
  by (simp add: drop_draws_def wall_rng_def ac_simps)

lemma wall_setup: "setup_game SnakeGame_init (wall_rng 0) = Some (Inr (approach 0, wall_rng 4))"
proof -
  have r0: "randrange 2 (GRID_COLS - 2) (wall_rng 0) = Inr (37, wall_rng (Suc 0))"
    by (simp add: randrange_wall grid_consts wall_draw_def)
  have "wall_rng (Suc (Suc 0)) = wall_rng 2" by (simp add: numeral_2_eq_2)
  then have r1: "randrange 1 (GRID_ROWS - 1) (wall_rng (Suc 0)) = Inr (5, wall_rng 2)"
    by (simp add: randrange_wall grid_consts wall_draw_def)
  have c: "cell_at (wall_rng 2) 0 = (0, 0)"
    by (simp add: cell_at_def wall_rng_def wall_draw_def grid_consts)
  have d: "drop_draws 2 (wall_rng 2) = wall_rng 4"
    by (simp add: wall_rng_drop)
  have "random_grid_position (wall_rng 2) (set [(37, 5), (36, 5), (35, 5)])
          = Some (Inr ((0, 0), wall_rng 4))"
    using random_grid_position_0 [of "wall_rng 2" "set [(37, 5), (36, 5), (35, 5)]"]
    by (simp add: c d)
  then show ?thesis
    by (simp add: setup_game_def spawn_food_def r0 r1 SnakeGame_init_def approach_def)
qed

lemma approach_frame:
  assumes "n < 2"
  shows "on_update 1 (approach n) r = Some (Inr (approach (Suc n), r))"
proof -
  have t: "move_interval (approach n) \<le> fl (time_since_move (approach n) + 1)"
    using interval_consts(2) by (simp add: approach_def SnakeGame_init_def fl_1)
  have g: "\<not> game_over (approach n)" by (simp add: approach_def SnakeGame_init_def)
  have "step_snake ((approach n)\<lparr>time_since_move := 0\<rparr>) r = Some (Inr (approach (Suc n), r))"
    using assms
    by (simp add: step_snake_def Let_def approach_def SnakeGame_init_def grid_consts)
  with t g show ?thesis by (simp add: on_update_fires)
qed

lemma wall_reachable: "reachable (wall_game, wall_rng 4)"
proof -
  have "reachable (approach 0, wall_rng 4)" using wall_setup by (rule reachable.start)
  then have "reachable (approach (Suc 0), wall_rng 4)"
    by (rule reachable.frame) (rule approach_frame, simp)
  then have "reachable (approach (Suc (Suc 0)), wall_rng 4)"
    by (rule reachable.frame) (rule approach_frame, simp)
  moreover have "approach (Suc (Suc 0)) = wall_game" by (simp add: approach_def wall_game_def)
  ultimately show ?thesis by simp
qed

lemma wall_press: "on_key_press key_UP 0 wall_game r = Some (Inr (turn_game, r))"
  by (simp add: on_key_press_def try_set_direction_def turn_game_def wall_game_def
      SnakeGame_init_def key_UP_def key_R_def)

lemma turn_reachable: "reachable (turn_game, wall_rng 4)"
  using wall_reachable wall_press by (rule reachable.press)

section \<open>The claims\<close>

text \<open>
  Claim C1. In every reachable state in which the game-over flag is false, the snake list
  holds no position twice; and a step whose new head is already a position of the snake
  sets the game-over flag and leaves the snake as it is.
\<close>

theorem snake_no_duplicates:
  "(reachable (g, r) \<and> \<not> game_over g \<longrightarrow> distinct (snake g)) \<and>
   (snake h \<noteq> [] \<and> new_head h \<in> set (snake h) \<longrightarrow>
      step_snake h s = Some (Inr (h\<lparr>direction := next_direction h, game_over := True\<rparr>, s)))"
proof (intro conjI impI)
  assume "reachable (g, r) \<and> \<not> game_over g"
  then have "game_inv g" by (auto dest: reachable_inv)
  then show "distinct (snake g)" by (simp add: game_inv_def)
next
  assume "snake h \<noteq> [] \<and> new_head h \<in> set (snake h)"
  then show "step_snake h s = Some (Inr (h\<lparr>direction := next_direction h, game_over := True\<rparr>, s))"
    by (intro step_snake_collides) (simp_all add: collides_def)
qed

theorem snake_no_duplicates_witness:
  "reachable (demo_game 5, demo_rng 14) \<and> \<not> game_over (demo_game 5) \<and>
   distinct (snake (demo_game 5)) \<and>
   snake loop_game \<noteq> [] \<and> new_head loop_game \<in> set (snake loop_game) \<and>
   step_snake loop_game (demo_rng 0) =
     Some (Inr (loop_game\<lparr>direction := (1, 0), game_over := True\<rparr>, demo_rng 0))"
proof -
  have r: "reachable (demo_game 5, demo_rng 14)" using demo_reachable [of 5] by simp
  have n: "\<not> game_over (demo_game 5)" by (simp add: demo_game_def)
  have l: "snake loop_game \<noteq> []" "new_head loop_game \<in> set (snake loop_game)"
    "next_direction loop_game = (1, 0)"
    by (simp_all add: loop_game_def new_head_def SnakeGame_init_def)
  from snake_no_duplicates [of "demo_game 5" "demo_rng 14" loop_game "demo_rng 0"] r n l
  show ?thesis by simp
qed

text \<open>
  Claim C2. When the new head that an advance computes is the cell of the snake's own
  tail segment, the advance sets the game-over flag: the test \<open>new_head in self.snake\<close>
  runs on the body before the tail is removed. The first part is the call of
  \<open>step_snake\<close>, the second the frame of a running game whose timer fires.
\<close>

theorem tail_cell_ends_game:
  assumes "snake g \<noteq> []" and "new_head g = last (snake g)"
  shows "step_snake g r =
           Some (Inr (g\<lparr>direction := next_direction g, game_over := True\<rparr>, r)) \<and>
         (\<not> game_over g \<and> move_interval g \<le> fl (time_since_move g + delta_time) \<longrightarrow>
          on_update delta_time g r =
            Some (Inr (g\<lparr>time_since_move := 0, direction := next_direction g,
                         game_over := True\<rparr>, r)))"
proof -
  from assms have c: "collides g" by (auto simp: collides_def)
  then have c0: "collides (g\<lparr>time_since_move := 0\<rparr>)"
    by (simp add: collides_def new_head_def)
  from assms(1) have "snake (g\<lparr>time_since_move := 0\<rparr>) \<noteq> []" by simp
  from step_snake_collides [OF assms(1) c, of r] step_snake_collides [OF this c0, of r]
  show ?thesis by (simp add: on_update_fires)
qed

theorem tail_cell_ends_game_witness:
  "snake loop_game \<noteq> [] \<and> new_head loop_game = (2, 1) \<and> last (snake loop_game) = (2, 1) \<and>
   in_grid (new_head loop_game) \<and> \<not> game_over loop_game \<and>
   step_snake loop_game (demo_rng 0) =
     Some (Inr (loop_game\<lparr>direction := (1, 0), game_over := True\<rparr>, demo_rng 0)) \<and>
   on_update 1 loop_game (demo_rng 0) =
     Some (Inr (loop_game\<lparr>time_since_move := 0, direction := (1, 0), game_over := True\<rparr>,
                demo_rng 0))"
proof -
  have a: "snake loop_game \<noteq> []" "new_head loop_game = last (snake loop_game)"
    by (simp_all add: loop_game_def new_head_def SnakeGame_init_def)
  have t: "move_interval loop_game \<le> fl (time_since_move loop_game + 1)"
    using interval_consts(2) by (simp add: loop_game_def SnakeGame_init_def fl_1)
  from tail_cell_ends_game [OF a, of "demo_rng 0" 1] t show ?thesis
    by (simp add: loop_game_def new_head_def SnakeGame_init_def in_grid_def grid_consts)
qed

text \<open>
  Claim C3, as amended. The direction of an advance is the pending one: \<open>step_snake\<close>
  first commits \<open>next_direction\<close>. When the head plus the pending direction leaves the
  grid, the step (and the frame of a running game whose timer fires) sets the game-over
  flag and changes neither snake, food, score nor level; and while the flag is set, no
  frame and no key but the restart key changes the state at all.
\<close>

theorem wall_ends_game:
  assumes "snake g \<noteq> []" and "\<not> in_grid (new_head g)"
  shows "step_snake g r =
           Some (Inr (g\<lparr>direction := next_direction g, game_over := True\<rparr>, r)) \<and>
         (\<not> game_over g \<and> move_interval g \<le> fl (time_since_move g + delta_time) \<longrightarrow>
          on_update delta_time g r =
            Some (Inr (g\<lparr>time_since_move := 0, direction := next_direction g,
                         game_over := True\<rparr>, r))) \<and>
         (game_over h \<longrightarrow> on_update delta_time h r = Some (Inr (h, r))) \<and>
         (game_over h \<and> key \<noteq> key_R \<longrightarrow> on_key_press key modifiers h r = Some (Inr (h, r)))"
proof -
  from assms have c: "collides g" by (simp add: collides_def)
  then have c0: "collides (g\<lparr>time_since_move := 0\<rparr>)"
    by (simp add: collides_def new_head_def)
  from assms(1) have "snake (g\<lparr>time_since_move := 0\<rparr>) \<noteq> []" by simp
  from step_snake_collides [OF assms(1) c, of r] step_snake_collides [OF this c0, of r]
  show ?thesis by (simp add: on_update_fires on_update_game_over on_key_press_def)
qed

theorem wall_ends_game_witness:
  "reachable (wall_game, wall_rng 4) \<and>
   snake wall_game \<noteq> [] \<and> hd (snake wall_game) = (GRID_COLS - 1, 5) \<and>
   next_direction wall_game = (1, 0) \<and> \<not> in_grid (new_head wall_game) \<and>
   \<not> game_over wall_game \<and>
   on_update 1 wall_game (wall_rng 4) =
     Some (Inr (wall_game\<lparr>time_since_move := 0, direction := (1, 0), game_over := True\<rparr>,
                wall_rng 4)) \<and>
   on_update 1 (wall_game\<lparr>game_over := True\<rparr>) (wall_rng 4) =
     Some (Inr (wall_game\<lparr>game_over := True\<rparr>, wall_rng 4)) \<and>
   on_key_press key_UP 0 (wall_game\<lparr>game_over := True\<rparr>) (wall_rng 4) =
     Some (Inr (wall_game\<lparr>game_over := True\<rparr>, wall_rng 4))"
proof -
  have a: "snake wall_game \<noteq> []" "\<not> in_grid (new_head wall_game)"
    by (simp_all add: wall_game_def new_head_def SnakeGame_init_def in_grid_def grid_consts)
  have t: "move_interval wall_game \<le> fl (time_since_move wall_game + 1)"
    using interval_consts(2) by (simp add: wall_game_def SnakeGame_init_def fl_1)
  have k: "key_UP \<noteq> key_R" by (simp add: key_UP_def key_R_def)
  from wall_ends_game [OF a, of "wall_rng 4" 1 "wall_game\<lparr>game_over := True\<rparr>" key_UP 0] a t k
    wall_reachable
  show ?thesis
    by (simp add: wall_game_def SnakeGame_init_def grid_consts)
qed

text \<open>
  The claim as it was stated speaks of the state's direction. A snake in the last column
  that moves right, after the player has pressed the up arrow, has a direction that
  points off the grid; the advance turns it upwards and the game goes on.
\<close>

theorem wall_ends_game_counterexample:
  "reachable (turn_game, wall_rng 4) \<and>
   \<not> game_over turn_game \<and> hd (snake turn_game) = (GRID_COLS - 1, 5) \<and>
   direction turn_game = (1, 0) \<and>
   \<not> in_grid (fst (hd (snake turn_game)) + fst (direction turn_game),
              snd (hd (snake turn_game)) + snd (direction turn_game)) \<and>
   on_update 1 turn_game (wall_rng 4) =
     Some (Inr (turn_game\<lparr>time_since_move := 0, direction := (0, 1),
                  snake := [(39, 6), (39, 5), (38, 5)]\<rparr>, wall_rng 4)) \<and>
   \<not> game_over (turn_game\<lparr>time_since_move := 0, direction := (0, 1),
                  snake := [(39, 6), (39, 5), (38, 5)]\<rparr>)"
proof -
  have t: "move_interval turn_game \<le> fl (time_since_move turn_game + 1)"
    using interval_consts(2) by (simp add: turn_game_def wall_game_def SnakeGame_init_def fl_1)
  have n: "\<not> game_over turn_game"
    by (simp add: turn_game_def wall_game_def SnakeGame_init_def)
  have "step_snake (turn_game\<lparr>time_since_move := 0\<rparr>) (wall_rng 4) =
     Some (Inr (turn_game\<lparr>time_since_move := 0, direction := (0, 1),
                  snake := [(39, 6), (39, 5), (38, 5)]\<rparr>, wall_rng 4))"
    by (simp add: step_snake_def Let_def turn_game_def wall_game_def SnakeGame_init_def
        grid_consts)
  then have s: "on_update 1 turn_game (wall_rng 4) =
     Some (Inr (turn_game\<lparr>time_since_move := 0, direction := (0, 1),
                  snake := [(39, 6), (39, 5), (38, 5)]\<rparr>, wall_rng 4))"
    using n t by (simp add: on_update_fires)
  from turn_reachable s n show ?thesis
    by (simp add: turn_game_def wall_game_def SnakeGame_init_def in_grid_def grid_consts)
qed

text \<open>
  Claim C4. In every reachable state (every state from the first \<open>setup\<close> on), the level
  is \<open>1 + score // 5\<close>.
\<close>

theorem level_of_score:
  "reachable (g, r) \<Longrightarrow> level g = 1 + score g div 5"
  by (drule reachable_inv) (simp add: game_inv_def)

theorem level_of_score_witness:
  "reachable (demo_game 5, demo_rng 14) \<and> score (demo_game 5) = 5 \<and>
   level (demo_game 5) = 1 + score (demo_game 5) div 5"
proof -
  have r: "reachable (demo_game 5, demo_rng 14)" using demo_reachable [of 5] by simp
  from r level_of_score [OF r] show ?thesis by (simp add: demo_game_def)
qed

text \<open>
  Claim C5. In every reachable state the move interval lies between the doubles
  \<open>MOVE_INTERVAL_MIN\<close> (the literal \<open>0.06\<close>) and \<open>MOVE_INTERVAL_START\<close> (the literal
  \<open>0.20\<close>). Along a running episode (frames and keys other than the restart key) the score
  does not decrease and the interval does not increase; more generally, of two reachable
  states the one with the higher score has the shorter or the same interval.
\<close>

theorem move_interval_bounded_and_antitone:
  assumes "reachable (g, r)"
  shows "MOVE_INTERVAL_MIN \<le> move_interval g \<and> move_interval g \<le> MOVE_INTERVAL_START \<and>
         (episode (g, r) (g', r') \<longrightarrow> score g \<le> score g' \<and> move_interval g' \<le> move_interval g) \<and>
         (reachable (h, s) \<and> score g \<le> score h \<longrightarrow> move_interval h \<le> move_interval g)"
proof -
  from assms have "game_inv g" by (auto dest: reachable_inv)
  then have "move_interval g = interval_at (level g)" by (simp add: game_inv_def)
  with interval_at_range [of "level g"]
  have "MOVE_INTERVAL_MIN \<le> move_interval g \<and> move_interval g \<le> MOVE_INTERVAL_START"
    by simp
  moreover have "score g \<le> score g' \<and> move_interval g' \<le> move_interval g"
    if "episode (g, r) (g', r')"
    using episode_reachable_score [OF that assms] reachable_interval_antimono [OF assms, of g' r']
    by simp
  moreover have "move_interval h \<le> move_interval g" if "reachable (h, s) \<and> score g \<le> score h"
    using that reachable_interval_antimono [OF assms, of h s] by simp
  ultimately show ?thesis by blast
qed

theorem move_interval_bounded_and_antitone_witness:
  "reachable (demo_game 0, demo_rng 4) \<and>
   episode (demo_game 0, demo_rng 4) (demo_game 5, demo_rng 14) \<and>
   score (demo_game 0) = 0 \<and> score (demo_game 5) = 5 \<and>
   move_interval (demo_game 0) = MOVE_INTERVAL_START \<and>
   move_interval (demo_game 5) = 6485183463413515 / 2 ^ 55 \<and>
   MOVE_INTERVAL_MIN \<le> move_interval (demo_game 5) \<and>
   move_interval (demo_game 5) \<le> move_interval (demo_game 0)"
proof -
  have r: "reachable (demo_game 0, demo_rng 4)" using demo_reachable [of 0] by simp
  have r5: "reachable (demo_game 5, demo_rng 14)" using demo_reachable [of 5] by simp
  have e: "episode (demo_game 0, demo_rng 4) (demo_game 5, demo_rng 14)"
    using demo_episode [of 5] by simp
  have v: "move_interval (demo_game 0) = MOVE_INTERVAL_START"
    "move_interval (demo_game 5) = 6485183463413515 / 2 ^ 55"
    "score (demo_game 0) = 0" "score (demo_game 5) = 5"
    by (simp_all add: demo_game_def interval_at_1 interval_values(3))
  from move_interval_bounded_and_antitone [OF r, of "demo_game 5" "demo_rng 14" "demo_game 5" "demo_rng 14"]
    move_interval_bounded_and_antitone [OF r5, of "demo_game 5" "demo_rng 14" "demo_game 5" "demo_rng 14"]
    r e v
  show ?thesis by simp
qed

text \<open>
  Claim C6, as amended. The step that eats the fifth food sets the level to 2 and the move
  interval to the double that \<open>0.20 - 1 * 0.02\<close> rounds to, \<open>6485183463413515 / 2 ^ 55\<close>
  (\<open>0.18000000000000002\<close> when printed), which is the double next above the literal
  \<open>0.18\<close>, \<open>6485183463413514 / 2 ^ 55\<close>.
\<close>

theorem fifth_food_level_and_interval:
  assumes "step_snake g r = Some (Inr (g', r'))" and "score g = 4" and "score g' = 5"
  shows "level g' = 2 \<and> move_interval g' = 6485183463413515 / 2 ^ 55 \<and>
         move_interval g' = fl (18 / 100) + 1 / 2 ^ 55"
  using assms(1)
proof (cases rule: step_snake_cases)
  case over
  with assms(2,3) show ?thesis by simp
next
  case (eat p)
  with assms(2) have "level g' = 2" "move_interval g' = interval_at 2"
    by (simp_all add: update_level_and_speed_eq)
  then show ?thesis unfolding interval_values by simp
next
  case move
  with assms(2,3) show ?thesis by simp
qed

theorem fifth_food_level_and_interval_witness:
  "step_snake (demo_game 4) (demo_rng 12) = Some (Inr (demo_game 5, demo_rng 14)) \<and>
   score (demo_game 4) = 4 \<and> score (demo_game 5) = 5 \<and> level (demo_game 5) = 2 \<and>
   move_interval (demo_game 5) = 6485183463413515 / 2 ^ 55"
proof -
  have s: "step_snake (demo_game 4) (demo_rng 12) = Some (Inr (demo_game 5, demo_rng 14))"
    using demo_step [of 4] by (simp add: eval_nat_numeral)
  have v: "score (demo_game 4) = 4" "score (demo_game 5) = 5"
    by (simp_all add: demo_game_def)
  from fifth_food_level_and_interval [OF s v] s v show ?thesis by simp
qed

text \<open>
  The claim as it was stated gives the interval as exactly \<open>0.18\<close>. In the sample run the
  fifth food is eaten in a reachable state, and the interval after it is not the double of
  the literal \<open>0.18\<close>.
\<close>

theorem fifth_food_level_and_interval_counterexample:
  "reachable (demo_game 4, demo_rng 12) \<and>
   on_update 1 (demo_game 4) (demo_rng 12) = Some (Inr (demo_game 5, demo_rng 14)) \<and>
   score (demo_game 4) = 4 \<and> score (demo_game 5) = 5 \<and> level (demo_game 5) = 2 \<and>
   move_interval (demo_game 5) \<noteq> fl (18 / 100)"
proof -
  have r: "reachable (demo_game 4, demo_rng 12)" using demo_reachable [of 4] by simp
  have s: "on_update 1 (demo_game 4) (demo_rng 12) = Some (Inr (demo_game 5, demo_rng 14))"
    using demo_frame [of 4] by (simp add: eval_nat_numeral)
  have "move_interval (demo_game 5) = interval_at 2" by (simp add: demo_game_def)
  then have "move_interval (demo_game 5) \<noteq> fl (18 / 100)"
    unfolding interval_values by simp
  with r s show ?thesis by (simp add: demo_game_def)
qed

text \<open>
  Claim C7. A press of an arrow key is the request \<open>setDirection\<close>. When the game is over,
  or the requested direction is the exact opposite of the committed direction, the state
  stays as it is; otherwise the request becomes the pending direction and nothing else
  changes, the committed direction included. The next advance applies it: a step from
  the state with the request pending returns with the request as its direction (it
  returns whenever the snake is not empty and, if it eats, the random source draws a free
  cell for the new food), and so does the frame of a running game whose timer fires; a
  step that neither collides nor eats moves the snake by the requested direction.
\<close>

theorem arrow_key_sets_pending_direction:
  fixes g :: game and d :: "int \<times> int"
  defines "h \<equiv> g\<lparr>next_direction := d\<rparr>"
  assumes "(key, d) \<in> set arrow_keys"
  shows "on_key_press key modifiers g r =
           Some (Inr (if game_over g \<or> d = opposite (direction g) then g
                      else g\<lparr>next_direction := d\<rparr>, r)) \<and>
         (step_snake h r = Some (Inr (g', r')) \<longrightarrow> direction g' = d) \<and>
         (snake g \<noteq> [] \<and> (eats h \<longrightarrow> (\<exists>n. cell_at r n \<notin> set (new_head h # snake g))) \<longrightarrow>
            (\<exists>g'' r''. step_snake h r = Some (Inr (g'', r'')) \<and> direction g'' = d)) \<and>
         (snake g \<noteq> [] \<and> (eats h \<longrightarrow> (\<exists>n. cell_at r n \<notin> set (new_head h # snake g))) \<and>
          \<not> game_over g \<and> move_interval g \<le> fl (time_since_move g + delta_time) \<longrightarrow>
            (\<exists>g'' r''. on_update delta_time h r = Some (Inr (g'', r'')) \<and> direction g'' = d)) \<and>
         (snake g \<noteq> [] \<and> \<not> collides h \<and> \<not> eats h \<longrightarrow>
            step_snake h r =
              Some (Inr (h\<lparr>direction := d, snake := butlast (new_head h # snake g)\<rparr>, r)))"
proof (intro conjI impI)
  have t: "try_set_direction (fst d) (snd d) g =
      (if d = opposite (direction g) then g else g\<lparr>next_direction := d\<rparr>)"
    by (simp add: try_set_direction_eq)
  show "on_key_press key modifiers g r =
           Some (Inr (if game_over g \<or> d = opposite (direction g) then g
                      else g\<lparr>next_direction := d\<rparr>, r))"
    unfolding on_key_press_arrow [OF assms(2)] t by simp
next
  assume "step_snake h r = Some (Inr (g', r'))"
  then show "direction g' = d" by (auto dest: step_snake_direction simp: h_def)
next
  assume a: "snake g \<noteq> [] \<and> (eats h \<longrightarrow> (\<exists>n. cell_at r n \<notin> set (new_head h # snake g)))"
  then have "snake h \<noteq> []" "eats h \<longrightarrow> (\<exists>n. cell_at r n \<notin> set (new_head h # snake h))"
    by (simp_all add: h_def)
  from step_snake_returns [OF this]
  show "\<exists>g'' r''. step_snake h r = Some (Inr (g'', r'')) \<and> direction g'' = d"
    by (simp add: h_def)
next
  assume a: "snake g \<noteq> [] \<and> (eats h \<longrightarrow> (\<exists>n. cell_at r n \<notin> set (new_head h # snake g))) \<and>
     \<not> game_over g \<and> move_interval g \<le> fl (time_since_move g + delta_time)"
  let ?k = "h\<lparr>time_since_move := 0\<rparr>"
  from a have "snake ?k \<noteq> []" "eats ?k \<longrightarrow> (\<exists>n. cell_at r n \<notin> set (new_head ?k # snake ?k))"
    by (simp_all add: h_def new_head_def)
  from step_snake_returns [OF this]
  have "\<exists>g'' r''. step_snake ?k r = Some (Inr (g'', r'')) \<and> direction g'' = d"
    by (simp add: h_def)
  moreover from a have "on_update delta_time h r = step_snake ?k r"
    by (intro on_update_fires) (simp_all add: h_def)
  ultimately show "\<exists>g'' r''. on_update delta_time h r = Some (Inr (g'', r'')) \<and> direction g'' = d"
    by simp
next
  assume a: "snake g \<noteq> [] \<and> \<not> collides h \<and> \<not> eats h"
  then obtain hc hr rest where sn: "snake h = (hc, hr) # rest"
    by (cases "snake g") (auto simp: h_def)
  obtain dx dy where d: "d = (dx, dy)" by (cases d)
  then have nd: "next_direction h = (dx, dy)" by (simp add: h_def)
  have nh: "new_head h = (hc + dx, hr + dy)" by (simp add: new_head_def sn nd)
  from a have ok: "in_grid (hc + dx, hr + dy)" "(hc + dx, hr + dy) \<notin> set (snake h)"
    by (simp_all add: collides_def nh)
  with a have "food h \<noteq> (hc + dx, hr + dy)" by (auto simp: eats_def nh)
  from step_snake_move [OF sn nd ok this, of r]
  show "step_snake h r =
      Some (Inr (h\<lparr>direction := d, snake := butlast (new_head h # snake g)\<rparr>, r))"
    by (simp add: nh d) (simp add: h_def)
qed

theorem arrow_key_sets_pending_direction_witness:
  "(key_LEFT, (- 1, 0)) \<in> set arrow_keys \<and> (key_UP, (0, 1)) \<in> set arrow_keys \<and>
   direction (demo_game 0) = (1, 0) \<and>
   on_key_press key_LEFT 0 (demo_game 0) (demo_rng 4) = Some (Inr (demo_game 0, demo_rng 4)) \<and>
   on_update 1 (demo_game 0) (demo_rng 4) = Some (Inr (demo_game 1, demo_rng 6)) \<and>
   direction (demo_game 1) = (1, 0) \<and>
   on_key_press key_UP 0 (demo_game 0) (demo_rng 4) =
     Some (Inr ((demo_game 0)\<lparr>next_direction := (0, 1)\<rparr>, demo_rng 4)) \<and>
   direction ((demo_game 0)\<lparr>next_direction := (0, 1)\<rparr>) = (1, 0) \<and>
   on_update 1 ((demo_game 0)\<lparr>next_direction := (0, 1)\<rparr>) (demo_rng 4) =
     Some (Inr ((demo_game 0)\<lparr>next_direction := (0, 1), time_since_move := 0,
                  direction := (0, 1), snake := [(2, 2), (2, 1), (1, 1)]\<rparr>, demo_rng 4)) \<and>
   on_key_press key_UP 0 ((demo_game 0)\<lparr>game_over := True\<rparr>) (demo_rng 4) =
     Some (Inr ((demo_game 0)\<lparr>game_over := True\<rparr>, demo_rng 4))"
proof -
  have l: "(key_LEFT, (- 1, 0)) \<in> set arrow_keys" and u: "(key_UP, (0, 1)) \<in> set arrow_keys"
    by (simp_all add: arrow_keys_def)
  have d: "direction (demo_game 0) = (1, 0)" "direction (demo_game 1) = (1, 0)"
    by (simp_all add: demo_game_def)
  have f: "on_update 1 (demo_game 0) (demo_rng 4) = Some (Inr (demo_game 1, demo_rng 6))"
    using demo_frame [of 0] by simp
  from arrow_key_sets_pending_direction [OF l, of 0 "demo_game 0" "demo_rng 4"]
    arrow_key_sets_pending_direction [OF u, of 0 "demo_game 0" "demo_rng 4"]
    arrow_key_sets_pending_direction [OF u, of 0 "(demo_game 0)\<lparr>game_over := True\<rparr>" "demo_rng 4"]
    l u d f demo_turn_frame
  show ?thesis by (simp add: opposite_def demo_game_def)
qed

text \<open>
  Claim C8. In every reachable state the food is on no snake segment, it is a cell of the
  grid (so its row is in \<open>[0, GRID_ROWS)\<close>), and the centre of its cell on the screen is
  below the strip reserved for the score.
\<close>

theorem food_off_snake_and_strip:
  "reachable (g, r) \<Longrightarrow>
   food g \<notin> set (snake g) \<and> in_grid (food g) \<and>
   fl (fl (of_int (snd (food g) * CELL_SIZE)) + fl (of_int CELL_SIZE / 2))
     < of_int (SCREEN_HEIGHT - UI_HEIGHT)"
proof -
  assume "reachable (g, r)"
  then have "game_inv g" by (auto dest: reachable_inv)
  then have f: "food g \<notin> set (snake g)" "in_grid (food g)"
    by (simp_all add: game_inv_def)
  from f(2) have "snd (food g) < GRID_ROWS" by (simp add: in_grid_def)
  from f screen_y_below_ui [OF this] show ?thesis by simp
qed

theorem food_off_snake_and_strip_witness:
  "reachable (demo_game 5, demo_rng 14) \<and> food (demo_game 5) = (0, 0) \<and>
   food (demo_game 5) \<notin> set (snake (demo_game 5)) \<and> in_grid (food (demo_game 5))"
proof -
  have r: "reachable (demo_game 5, demo_rng 14)" using demo_reachable [of 5] by simp
  from r food_off_snake_and_strip [OF r] show ?thesis by (simp add: demo_game_def)
qed

text \<open>
  Claim C9. Under the precondition that a grid cell exists that the test of the loop
  accepts (outside the excluded set, which is the snake, and outside the strip), and with
  a fair random source, \<open>spawn_food\<close> returns: the retry loop finds, at some pass \<open>n\<close>, a
  cell that qualifies, and that cell is the new food.
\<close>

theorem spawn_food_finds_free_cell:
  assumes "fair r" and "in_grid p" and "accepts (set (snake g)) p"
  shows "\<exists>n. spawn_food g r =
              Some (Inr (g\<lparr>food := cell_at r n\<rparr>, drop_draws (2 * Suc n) r)) \<and>
             in_grid (cell_at r n) \<and> cell_at r n \<notin> set (snake g) \<and>
             accepts (set (snake g)) (cell_at r n)"
proof -
  from assms(3) have "p \<notin> set (snake g)" by (simp add: accepts_def Let_def)
  moreover from assms(1,2) have "\<exists>k. cell_at r k = p" unfolding fair_def by blast
  ultimately have "\<exists>n. cell_at r n \<notin> set (snake g)" by auto
  then obtain n where n: "cell_at r n \<notin> set (snake g)" "\<forall>m<n. cell_at r m \<in> set (snake g)"
    by (rule first_free_draw)
  from spawn_food_first_hit [OF n] n(1) cell_at_in_grid [of r n]
    accepts_cell_at [of "set (snake g)" r n]
  show ?thesis by blast
qed

theorem spawn_food_finds_free_cell_witness:
  "fair sweep_rng \<and> in_grid (3, 1) \<and> accepts (set (snake (demo_game 0))) (3, 1) \<and>
   snake (demo_game 0) = [(2, 1), (1, 1), (0, 1)] \<and>
   cell_at sweep_rng 0 = (0, 1) \<and> cell_at sweep_rng 1 = (1, 1) \<and>
   cell_at sweep_rng 2 = (2, 1) \<and> cell_at sweep_rng 3 = (3, 1) \<and>
   spawn_food (demo_game 0) sweep_rng =
     Some (Inr ((demo_game 0)\<lparr>food := (3, 1)\<rparr>, drop_draws 8 sweep_rng))"
proof -
  have s: "snake (demo_game 0) = [(2, 1), (1, 1), (0, 1)]" by (simp add: demo_game_def)
  have g: "in_grid (3, 1)" by (simp add: in_grid_def grid_consts)
  have "accepts (set (snake (demo_game 0))) (3, 1) \<longleftrightarrow> (3, 1) \<notin> set (snake (demo_game 0))"
    by (rule accepts_iff) (simp add: grid_consts)
  then have a: "accepts (set (snake (demo_game 0))) (3, 1)" by (simp add: s)
  have c: "cell_at sweep_rng 0 = (0, 1)" "cell_at sweep_rng 1 = (1, 1)"
    "cell_at sweep_rng 2 = (2, 1)" "cell_at sweep_rng 3 = (3, 1)"
    by (simp_all add: cell_at_sweep)
  have "\<forall>m<3. cell_at sweep_rng m \<in> set (snake (demo_game 0))"
  proof (intro allI impI)
    fix m :: nat
    assume "m < 3"
    then have "m = 0 \<or> m = 1 \<or> m = 2" by auto
    with c s show "cell_at sweep_rng m \<in> set (snake (demo_game 0))" by auto
  qed
  moreover have "cell_at sweep_rng 3 \<notin> set (snake (demo_game 0))" by (simp add: c s)
  ultimately have "spawn_food (demo_game 0) sweep_rng =
      Some (Inr ((demo_game 0)\<lparr>food := cell_at sweep_rng 3\<rparr>, drop_draws (2 * Suc 3) sweep_rng))"
    by (intro spawn_food_first_hit)
  with spawn_food_finds_free_cell [OF fair_sweep g a] fair_sweep g a s c
  show ?thesis by simp
qed

text \<open>
  Claim C10. In every reachable state in which the game is not over, the snake has
  \<open>3 + score\<close> segments. A step that returns has added one segment and one point when it
  ate (the new head is a free cell of the grid and is the food), and has kept the length
  and the score otherwise; \<open>setup\<close> gives a snake of three segments and the score 0.
\<close>

theorem length_is_three_plus_score:
  "(reachable (g, r) \<and> \<not> game_over g \<longrightarrow> int (length (snake g)) = 3 + score g) \<and>
   (step_snake h s = Some (Inr (h', s')) \<longrightarrow>
      (if eats h
       then length (snake h') = length (snake h) + 1 \<and> score h' = score h + 1
       else length (snake h') = length (snake h) \<and> score h' = score h)) \<and>
   (setup_game k t = Some (Inr (k', t')) \<longrightarrow> length (snake k') = 3 \<and> score k' = 0)"
proof (intro conjI impI)
  assume "reachable (g, r) \<and> \<not> game_over g"
  then have "game_inv g" by (auto dest: reachable_inv)
  then show "int (length (snake g)) = 3 + score g" by (simp add: game_inv_def)
next
  assume "step_snake h s = Some (Inr (h', s'))"
  then show "if eats h
       then length (snake h') = length (snake h) + 1 \<and> score h' = score h + 1
       else length (snake h') = length (snake h) \<and> score h' = score h"
    by (rule step_snake_growth)
next
  assume "setup_game k t = Some (Inr (k', t'))"
  then show "length (snake k') = 3" by (auto dest: setup_game_Inr)
next
  assume "setup_game k t = Some (Inr (k', t'))"
  then show "score k' = 0" by (auto dest: setup_game_Inr)
qed

theorem length_is_three_plus_score_witness:
  "reachable (demo_game 5, demo_rng 14) \<and> \<not> game_over (demo_game 5) \<and>
   length (snake (demo_game 5)) = 8 \<and> score (demo_game 5) = 5 \<and>
   step_snake (demo_game 4) (demo_rng 12) = Some (Inr (demo_game 5, demo_rng 14)) \<and>
   eats (demo_game 4) \<and> length (snake (demo_game 4)) = 7 \<and> score (demo_game 4) = 4 \<and>
   setup_game SnakeGame_init (demo_rng 0) = Some (Inr (demo_game 0, demo_rng 4)) \<and>
   length (snake (demo_game 0)) = 3 \<and> score (demo_game 0) = 0"
proof -
  have r: "reachable (demo_game 5, demo_rng 14)" using demo_reachable [of 5] by simp
  have s: "step_snake (demo_game 4) (demo_rng 12) = Some (Inr (demo_game 5, demo_rng 14))"
    using demo_step [of 4] by (simp add: eval_nat_numeral)
  have e: "eats (demo_game 4)" by (simp add: demo_eats)
  have l: "length (snake (demo_game 4)) = 7" "score (demo_game 4) = 4"
    "\<not> game_over (demo_game 5)"
    by (simp_all add: demo_game_def eval_nat_numeral)
  from length_is_three_plus_score
    [of "demo_game 5" "demo_rng 14" "demo_game 4" "demo_rng 12" "demo_game 5" "demo_rng 14"
      SnakeGame_init "demo_rng 0" "demo_game 0" "demo_rng 4"]
    r s e l demo_setup
  show ?thesis by (simp add: demo_game_def)
qed

end
